theory Spec2Isabelle
  imports
    Main
    "HOL-Library.Word"
    "HOL-Library.Monad_Syntax"
    "HOL-Library.Multiset"
    "HOL-Library.Char_ord"
    "HOL-Library.List_Lexorder"
begin

section \<open>Memory model\<close>

text \<open>
  The queue of \<^verbatim>\<open>queue.c\<close> is a singly linked list of heap nodes. The model keeps the
  heap explicit: a pointer is an optional address (\<open>None\<close> is \<^verbatim>\<open>NULL\<close>), the allocated
  \<^verbatim>\<open>list_ele_t\<close> blocks and the allocated character arrays are two finite maps from
  addresses. Every function of the source becomes a function into \<open>option\<close>: \<open>None\<close>
  means that the C program has no defined result there (it dereferences a pointer that
  is null or not allocated, reads or writes outside a block, frees a block twice, or a
  loop does not end).

  Integers have the widths of the LP64 data model: \<^verbatim>\<open>size_t\<close> is a 64-bit word,
  \<^verbatim>\<open>int\<close> a 32-bit word read as two's complement by \<open>sint\<close>. Arithmetic wraps around,
  and a conversion between the two keeps the low bits (from \<^verbatim>\<open>size_t\<close> to \<^verbatim>\<open>int\<close>) or
  extends the sign (from \<^verbatim>\<open>int\<close> to \<^verbatim>\<open>size_t\<close>), as the compiled code does.
\<close>

type_synonym addr = nat
type_synonym size_t = "64 word"
type_synonym c_int = "32 word"

text \<open>
  Modelled from the spec: the declaration of \<^verbatim>\<open>list_ele_t\<close> is in \<^verbatim>\<open>queue.h\<close>, which is not
  among the sources. An element has the two fields that \<^verbatim>\<open>queue.c\<close> uses, the owned string
  \<^verbatim>\<open>value\<close> and the link \<^verbatim>\<open>next\<close>, both pointers; they are written \<open>e_value\<close> and \<open>e_next\<close>.
\<close>

record list_ele_t =
  e_value :: "addr option"
  e_next :: "addr option"

text \<open>
  Modelled from the spec: the declaration of \<^verbatim>\<open>queue_t\<close> is in \<^verbatim>\<open>queue.h\<close>, which is not among
  the sources. A queue has the three fields that \<^verbatim>\<open>queue.c\<close> uses: \<^verbatim>\<open>head\<close> and \<^verbatim>\<open>last_element\<close>
  (the tail reference of the specification) are pointers to elements, and \<^verbatim>\<open>count\<close> is the
  cached integer of the specification, for which no width is given; it is written
  \<open>count_q\<close>.
\<close>

record queue_t =
  head :: "addr option"
  last_element :: "addr option"
  count_q :: int

record mem =
  eles :: "addr \<rightharpoonup> list_ele_t"
  strs :: "addr \<rightharpoonup> string"

abbreviation NUL :: char where
  "NUL \<equiv> CHR 0x00"

definition allocated :: "mem \<Rightarrow> addr \<Rightarrow> bool" where
  "allocated st a = (eles st a \<noteq> None \<or> strs st a \<noteq> None)"

text \<open>
  \<^verbatim>\<open>malloc\<close> returns \<^verbatim>\<open>NULL\<close> or a block that is not in use. The first argument is the
  choice of the allocator (and of the harness, which may make any call fail): \<open>None\<close>
  is a failure, \<open>Some a\<close> proposes the address \<open>a\<close>, which is taken when it is free.
  The fields of a fresh node are indeterminate in C; the source writes both before it
  reads them, the model starts them as null pointers.
\<close>

definition malloc_ele :: "addr option \<Rightarrow> mem \<Rightarrow> addr option \<times> mem" where
  "malloc_ele r st =
     (case r of
        None \<Rightarrow> (None, st)
      | Some a \<Rightarrow>
          if allocated st a then (None, st)
          else (Some a, st\<lparr>eles := (eles st)(a \<mapsto> \<lparr>e_value = None, e_next = None\<rparr>)\<rparr>))"

text \<open>
  A character array of \<open>n\<close> bytes. A request above \<^verbatim>\<open>PTRDIFF_MAX\<close> always fails, as it
  does in the C library.
\<close>

definition malloc_str :: "addr option \<Rightarrow> size_t \<Rightarrow> mem \<Rightarrow> addr option \<times> mem" where
  "malloc_str r n st =
     (case r of
        None \<Rightarrow> (None, st)
      | Some a \<Rightarrow>
          if allocated st a \<or> 2 ^ 63 \<le> unat n then (None, st)
          else (Some a, st\<lparr>strs := (strs st)(a \<mapsto> replicate (unat n) NUL)\<rparr>))"

text \<open>\<^verbatim>\<open>free\<close>: nothing for \<^verbatim>\<open>NULL\<close>, undefined for a block that is not allocated.\<close>

definition free_ele :: "addr option \<Rightarrow> mem \<Rightarrow> mem option" where
  "free_ele p st =
     (case p of
        None \<Rightarrow> Some st
      | Some a \<Rightarrow>
          (case eles st a of
             None \<Rightarrow> None
           | Some e \<Rightarrow> Some (st\<lparr>eles := (eles st)(a := None)\<rparr>)))"

definition free_str :: "addr option \<Rightarrow> mem \<Rightarrow> mem option" where
  "free_str p st =
     (case p of
        None \<Rightarrow> Some st
      | Some a \<Rightarrow>
          (case strs st a of
             None \<Rightarrow> None
           | Some b \<Rightarrow> Some (st\<lparr>strs := (strs st)(a := None)\<rparr>)))"

text \<open>Reading and writing the fields of a node through a pointer.\<close>

definition deref :: "mem \<Rightarrow> addr option \<Rightarrow> list_ele_t option" where
  "deref st p = (case p of None \<Rightarrow> None | Some a \<Rightarrow> eles st a)"

definition set_next :: "addr option \<Rightarrow> addr option \<Rightarrow> mem \<Rightarrow> mem option" where
  "set_next p n st =
     do { e \<leftarrow> deref st p;
          Some (st\<lparr>eles := (eles st)(the p \<mapsto> e\<lparr>e_next := n\<rparr>)\<rparr>) }"

definition set_value :: "addr option \<Rightarrow> addr option \<Rightarrow> mem \<Rightarrow> mem option" where
  "set_value p v st =
     do { e \<leftarrow> deref st p;
          Some (st\<lparr>eles := (eles st)(the p \<mapsto> e\<lparr>e_value := v\<rparr>)\<rparr>) }"

section \<open>Strings\<close>

text \<open>
  A C string is the bytes before the first NUL. The argument \<open>s\<close> of an insertion is
  given by its bytes; a character array of the heap is given by all the bytes of its
  block, and reading it as a string needs a NUL inside the block.
\<close>

definition c_str :: "string \<Rightarrow> string" where
  "c_str s = takeWhile (\<lambda>c. c \<noteq> NUL) s"

definition strlen :: "string \<Rightarrow> size_t" where
  "strlen s = word_of_nat (length (c_str s))"

definition load_str :: "mem \<Rightarrow> addr option \<Rightarrow> string option" where
  "load_str st p =
     (case p of
        None \<Rightarrow> None
      | Some a \<Rightarrow>
          (case strs st a of
             None \<Rightarrow> None
           | Some b \<Rightarrow> if NUL \<in> set b then Some (c_str b) else None))"

definition load_block :: "mem \<Rightarrow> addr option \<Rightarrow> string option" where
  "load_block st p = (case p of None \<Rightarrow> None | Some a \<Rightarrow> strs st a)"

text \<open>
  \<^verbatim>\<open>strncpy(dst, s, n)\<close> writes exactly \<open>n\<close> bytes: the string, cut at \<open>n\<close> bytes or
  padded with NUL. \<^verbatim>\<open>dst[i] = c\<close> writes one byte. Both are undefined outside the block.
\<close>

definition strncpy :: "addr option \<Rightarrow> string \<Rightarrow> size_t \<Rightarrow> mem \<Rightarrow> mem option" where
  "strncpy dst s n st =
     (case dst of
        None \<Rightarrow> None
      | Some a \<Rightarrow>
          (case strs st a of
             None \<Rightarrow> None
           | Some b \<Rightarrow>
               if length b < unat n then None
               else Some (st\<lparr>strs := (strs st)(a \<mapsto>
                      take (unat n) (c_str s) @ replicate (unat n - length (c_str s)) NUL
                        @ drop (unat n) b)\<rparr>)))"

definition store_char :: "addr option \<Rightarrow> int \<Rightarrow> char \<Rightarrow> mem \<Rightarrow> mem option" where
  "store_char dst i c st =
     (case dst of
        None \<Rightarrow> None
      | Some a \<Rightarrow>
          (case strs st a of
             None \<Rightarrow> None
           | Some b \<Rightarrow>
               if i < 0 \<or> int (length b) \<le> i then None
               else Some (st\<lparr>strs := (strs st)(a \<mapsto> b[nat i := c])\<rparr>)))"

text \<open>
  \<^verbatim>\<open>strcmp\<close> compares byte by byte, the bytes read as \<^verbatim>\<open>unsigned char\<close>; the sign of
  the result is what the C standard fixes, the model returns the difference of the first
  two bytes that differ.
\<close>

fun strcmp :: "string \<Rightarrow> string \<Rightarrow> int" where
  "strcmp [] [] = 0"
| "strcmp [] (y # ys) = - int (of_char y)"
| "strcmp (x # xs) [] = int (of_char x)"
| "strcmp (x # xs) (y # ys) =
     (if x = y then strcmp xs ys else int (of_char x) - int (of_char y))"

section \<open>The queue operations\<close>

text \<open>\<^verbatim>\<open>q_new\<close>: the queue structure itself is passed and returned by value.\<close>

definition q_new :: "bool \<Rightarrow> queue_t option" where
  "q_new ok =
     (if ok then Some \<lparr>head = None, last_element = None, count_q = 0\<rparr> else None)"

text \<open>
  \<^verbatim>\<open>q_insert_head(q, s)\<close>. The arguments \<open>r1\<close> and \<open>r2\<close> are the allocator's choices for
  the two calls of \<^verbatim>\<open>malloc\<close>. The result is the returned flag, the queue and the memory.
\<close>

definition q_insert_head ::
  "queue_t option \<Rightarrow> string \<Rightarrow> addr option \<Rightarrow> addr option \<Rightarrow> mem
     \<Rightarrow> (bool \<times> queue_t option \<times> mem) option" where
  "q_insert_head q s r1 r2 st =
     (case q of
        None \<Rightarrow> Some (False, None, st)
      | Some qa \<Rightarrow>
          (case malloc_ele r1 st of (newh, st1) \<Rightarrow>
             let len = (ucast (strlen s) :: c_int) in
             if newh = None then Some (False, q, st1)
             else
               (case malloc_str r2 (scast (len + 1)) st1 of (v, st2) \<Rightarrow>
                  do {
                    st3 \<leftarrow> set_value newh v st2;
                    n \<leftarrow> deref st3 newh;
                    if e_value n = None then
                      do { st4 \<leftarrow> free_ele newh st3; Some (False, q, st4) }
                    else
                      do {
                        st4 \<leftarrow> strncpy (e_value n) s (scast len) st3;
                        st5 \<leftarrow> store_char (e_value n) (sint len) NUL st4;
                        st6 \<leftarrow> set_next newh (head qa) st5;
                        let qa1 = qa\<lparr>head := newh, count_q := count_q qa + 1\<rparr>;
                        e \<leftarrow> deref st6 newh;
                        let qa2 = (if e_next e = None then qa1\<lparr>last_element := newh\<rparr>
                                   else qa1);
                        Some (True, Some qa2, st6)
                      }
                  })))"

definition q_insert_tail ::
  "queue_t option \<Rightarrow> string \<Rightarrow> addr option \<Rightarrow> addr option \<Rightarrow> mem
     \<Rightarrow> (bool \<times> queue_t option \<times> mem) option" where
  "q_insert_tail q s r1 r2 st =
     (case q of
        None \<Rightarrow> Some (False, None, st)
      | Some qa \<Rightarrow>
          (case malloc_ele r1 st of (newh, st1) \<Rightarrow>
             let len = (ucast (strlen s) :: c_int) in
             if newh = None then Some (False, q, st1)
             else
               (case malloc_str r2 (scast (len + 1)) st1 of (v, st2) \<Rightarrow>
                  do {
                    st3 \<leftarrow> set_value newh v st2;
                    n \<leftarrow> deref st3 newh;
                    if e_value n = None then
                      do { st4 \<leftarrow> free_ele newh st3; Some (False, q, st4) }
                    else
                      do {
                        st4 \<leftarrow> strncpy (e_value n) s (scast len) st3;
                        st5 \<leftarrow> store_char (e_value n) (sint len) NUL st4;
                        st6 \<leftarrow> set_next newh None st5;
                        if last_element qa = None then
                          Some (True,
                            Some (qa\<lparr>head := newh, last_element := newh,
                                     count_q := count_q qa + 1\<rparr>), st6)
                        else
                          do {
                            st7 \<leftarrow> set_next (last_element qa) newh st6;
                            Some (True,
                              Some (qa\<lparr>last_element := newh,
                                       count_q := count_q qa + 1\<rparr>), st7)
                          }
                      }
                  })))"

text \<open>
  \<^verbatim>\<open>q_remove_head(q, sp, bufsize)\<close>. The argument \<open>sp\<close> tells whether the buffer pointer
  is non-null. The third component of the result is what the call wrote through \<open>sp\<close>:
  \<open>None\<close> when it wrote nothing, \<open>Some bs\<close> when it stored the bytes \<open>bs\<close> at
  \<^verbatim>\<open>sp[0]\<close>, \<^verbatim>\<open>sp[1]\<close>, ... (so \<open>length bs\<close> bytes were written, whatever the capacity is).
  \<^verbatim>\<open>memcpy\<close> is undefined when it reads more bytes than the block of the string has, which
  is also what happens when \<^verbatim>\<open>realBufsize\<close> is negative and becomes a huge \<^verbatim>\<open>size_t\<close>.
\<close>

definition q_remove_head ::
  "queue_t option \<Rightarrow> bool \<Rightarrow> size_t \<Rightarrow> mem
     \<Rightarrow> (bool \<times> queue_t option \<times> string option \<times> mem) option" where
  "q_remove_head q sp bufsize st =
     (case q of
        None \<Rightarrow> Some (False, None, None, st)
      | Some qa \<Rightarrow>
          if head qa = None then Some (False, q, None, st)
          else
            do {
              h \<leftarrow> deref st (head qa);
              written \<leftarrow>
                (if sp then
                   do {
                     v \<leftarrow> load_str st (e_value h);
                     b \<leftarrow> load_block st (e_value h);
                     let realBufsize =
                       (ucast (if strlen v < bufsize - 1 then strlen v else bufsize - 1)
                          :: c_int);
                     let n = unat (scast realBufsize :: size_t);
                     if length b < n then None
                     else Some (Some (take n b @ [NUL]))
                   }
                 else Some None);
              let target = head qa;
              let qa1 = qa\<lparr>head := e_next h, count_q := count_q qa - 1\<rparr>;
              t \<leftarrow> deref st target;
              st1 \<leftarrow> free_str (e_value t) st;
              st2 \<leftarrow> free_ele target st1;
              let qa2 = (if head qa1 = None then qa1\<lparr>last_element := None\<rparr> else qa1);
              Some (True, Some qa2, written, st2)
            })"

text \<open>\<^verbatim>\<open>q_size\<close> returns an \<^verbatim>\<open>int\<close>: the count is converted to it.\<close>

definition q_size :: "queue_t option \<Rightarrow> c_int" where
  "q_size q = (case q of None \<Rightarrow> 0 | Some qa \<Rightarrow> word_of_int (count_q qa))"

text \<open>
  \<^verbatim>\<open>q_reverse\<close>: the loop turns one link around in each round. On a heap with a dangling
  link it has no defined result.
\<close>

partial_function (option) reverse_loop ::
  "addr option \<Rightarrow> addr option \<Rightarrow> mem \<Rightarrow> (addr option \<times> mem) option" where
  "reverse_loop prev current st =
     (if current \<noteq> None then
        do {
          c \<leftarrow> deref st current;
          let temp = e_next c;
          st1 \<leftarrow> set_next current prev st;
          reverse_loop current temp st1
        }
      else Some (prev, st))"

declare reverse_loop.simps [code]

definition q_reverse :: "queue_t option \<Rightarrow> mem \<Rightarrow> (queue_t option \<times> mem) option" where
  "q_reverse q st =
     (case q of
        None \<Rightarrow> Some (None, st)
      | Some qa \<Rightarrow>
          do {
            let qa1 = qa\<lparr>last_element := head qa\<rparr>;
            (prev, st1) \<leftarrow> reverse_loop None (head qa1) st;
            Some (Some (qa1\<lparr>head := prev\<rparr>), st1)
          })"

text \<open>
  \<^verbatim>\<open>comparator\<close> and \<^verbatim>\<open>mergesort\<close>. The three loops of \<^verbatim>\<open>mergesort\<close> and of \<^verbatim>\<open>q_sort\<close> are
  functions of their own: the scan with a slow and a fast pointer, the merge, and the
  walk to the last node.
\<close>

definition comparator :: "mem \<Rightarrow> addr option \<Rightarrow> addr option \<Rightarrow> int option" where
  "comparator st a b =
     do {
       ea \<leftarrow> deref st a;
       eb \<leftarrow> deref st b;
       va \<leftarrow> load_str st (e_value ea);
       vb \<leftarrow> load_str st (e_value eb);
       Some (strcmp va vb)
     }"

partial_function (option) split_loop ::
  "addr option \<Rightarrow> addr option \<Rightarrow> mem \<Rightarrow> addr option option" where
  "split_loop slow fast st =
     do {
       f \<leftarrow> deref st fast;
       if e_next f = None then Some slow
       else
         do {
           f1 \<leftarrow> deref st (e_next f);
           if e_next f1 = None then Some slow
           else
             do {
               s \<leftarrow> deref st slow;
               split_loop (e_next s) (e_next f1) st
             }
         }
     }"

partial_function (option) merge_loop ::
  "(mem \<Rightarrow> addr option \<Rightarrow> addr option \<Rightarrow> int option)
     \<Rightarrow> addr option \<Rightarrow> addr option \<Rightarrow> addr option \<Rightarrow> addr option \<Rightarrow> mem
     \<Rightarrow> (addr option \<times> mem) option" where
  "merge_loop compar start merge left right st =
     (if left \<noteq> None \<or> right \<noteq> None then
        do {
          take_left \<leftarrow>
            (if right = None then Some True
             else if left = None then Some False
             else do { c \<leftarrow> compar st left right; Some (c < 0) });
          if take_left then
            do {
              l \<leftarrow> deref st left;
              let next = e_next l;
              st1 \<leftarrow> (if merge = None then Some st else set_next merge left st);
              st2 \<leftarrow> set_next left None st1;
              merge_loop compar (if merge = None then left else start) left next right st2
            }
          else
            do {
              r \<leftarrow> deref st right;
              let next = e_next r;
              st1 \<leftarrow> (if merge = None then Some st else set_next merge right st);
              st2 \<leftarrow> set_next right None st1;
              merge_loop compar (if merge = None then right else start) right left next st2
            }
        }
      else Some (start, st))"

partial_function (option) mergesort ::
  "(mem \<Rightarrow> addr option \<Rightarrow> addr option \<Rightarrow> int option)
     \<Rightarrow> addr option \<Rightarrow> mem \<Rightarrow> (addr option \<times> mem) option" where
  "mergesort compar start st =
     (if start = None then Some (start, st)
      else
        do {
          s \<leftarrow> deref st start;
          if e_next s = None then Some (start, st)
          else
            do {
              slow \<leftarrow> split_loop start start st;
              sl \<leftarrow> deref st slow;
              let left = start;
              let right = e_next sl;
              st1 \<leftarrow> set_next slow None st;
              (left, st2) \<leftarrow> mergesort compar left st1;
              (right, st3) \<leftarrow> mergesort compar right st2;
              merge_loop compar start None left right st3
            }
        })"

declare split_loop.simps [code] merge_loop.simps [code] mergesort.simps [code]

partial_function (option) end_loop :: "addr option \<Rightarrow> mem \<Rightarrow> addr option option" where
  "end_loop e st =
     do {
       n \<leftarrow> deref st e;
       if e_next n \<noteq> None then end_loop (e_next n) st else Some e
     }"

declare end_loop.simps [code]

definition q_sort :: "queue_t option \<Rightarrow> mem \<Rightarrow> (queue_t option \<times> mem) option" where
  "q_sort q st =
     (case q of
        None \<Rightarrow> Some (None, st)
      | Some qa \<Rightarrow>
          if head qa = None \<or> count_q qa = 1 then Some (q, st)
          else
            do {
              (h, st1) \<leftarrow> mergesort comparator (head qa) st;
              let qa1 = qa\<lparr>head := h\<rparr>;
              e \<leftarrow> end_loop (head qa1) st1;
              Some (Some (qa1\<lparr>last_element := e\<rparr>), st1)
            })"

section \<open>The chain of nodes and the representation invariant\<close>

text \<open>
  \<open>chain st p ns\<close>: following the \<^verbatim>\<open>next\<close> links from the pointer \<open>p\<close> visits exactly the
  nodes \<open>ns\<close>, all allocated, and then reaches \<^verbatim>\<open>NULL\<close>. \<open>path st p n\<close> computes the nodes
  when the walk from \<open>p\<close> reaches \<^verbatim>\<open>NULL\<close> after exactly \<open>n\<close> nodes.
\<close>

definition nxt :: "mem \<Rightarrow> addr \<Rightarrow> addr option option" where
  "nxt st a = map_option e_next (eles st a)"

fun chain :: "mem \<Rightarrow> addr option \<Rightarrow> addr list \<Rightarrow> bool" where
  "chain st p [] = (p = None)"
| "chain st p (a # as) =
     (p = Some a \<and> (case nxt st a of None \<Rightarrow> False | Some n \<Rightarrow> chain st n as))"

fun path :: "mem \<Rightarrow> addr option \<Rightarrow> nat \<Rightarrow> addr list option" where
  "path st p 0 = (if p = None then Some [] else None)"
| "path st p (Suc n) =
     (case p of
        None \<Rightarrow> None
      | Some a \<Rightarrow>
          (case eles st a of
             None \<Rightarrow> None
           | Some e \<Rightarrow> map_option ((#) a) (path st (e_next e) n)))"

text \<open>
  The nodes of a queue: the chain from \<^verbatim>\<open>head\<close>, which must have \<^verbatim>\<open>count\<close> nodes. The string
  of a node is the C string in the block its \<^verbatim>\<open>value\<close> points to.
\<close>

definition q_nodes :: "queue_t \<Rightarrow> mem \<Rightarrow> addr list option" where
  "q_nodes q st =
     (if count_q q < 0 then None else path st (head q) (nat (count_q q)))"

definition str_of :: "mem \<Rightarrow> addr \<Rightarrow> string option" where
  "str_of st a = do { e \<leftarrow> eles st a; load_str st (e_value e) }"

definition val :: "mem \<Rightarrow> addr \<Rightarrow> addr option option" where
  "val st a = map_option e_value (eles st a)"

text \<open>
  The representation invariant of the queue, as the specification lists it: the walk from
  \<^verbatim>\<open>head\<close> reaches \<^verbatim>\<open>NULL\<close> after exactly \<^verbatim>\<open>count\<close> nodes (so \<^verbatim>\<open>count\<close> is the number of nodes
  reachable from \<^verbatim>\<open>head\<close>); \<^verbatim>\<open>head\<close> is null iff \<^verbatim>\<open>last_element\<close> is null iff \<^verbatim>\<open>count\<close> is 0;
  \<^verbatim>\<open>last_element\<close>, when not null, is the last node of the chain and its \<^verbatim>\<open>next\<close> is null;
  no node occurs twice in the chain.
\<close>

definition rep_inv :: "queue_t \<Rightarrow> mem \<Rightarrow> bool" where
  "rep_inv q st =
     (case q_nodes q st of
        None \<Rightarrow> False
      | Some ns \<Rightarrow>
          (head q = None \<longleftrightarrow> last_element q = None) \<and>
          (last_element q = None \<longleftrightarrow> count_q q = 0) \<and>
          (case last_element q of
             None \<Rightarrow> True
           | Some t \<Rightarrow> ns \<noteq> [] \<and> t = last ns \<and> nxt st t = Some None) \<and>
          distinct ns)"

text \<open>
  The ownership of the strings, from the data model of the specification: the \<^verbatim>\<open>value\<close> of
  every node of the queue points to an allocated, NUL-terminated character array, and no
  two nodes share one. The strings are shorter than \<open>2^31\<close> bytes, as every string that an
  insertion stores is (its length has passed through an \<^verbatim>\<open>int\<close>).
\<close>

definition owns :: "queue_t \<Rightarrow> mem \<Rightarrow> bool" where
  "owns q st =
     (case q_nodes q st of
        None \<Rightarrow> False
      | Some ns \<Rightarrow>
          list_all (\<lambda>a. case str_of st a of None \<Rightarrow> False | Some v \<Rightarrow> length v < 2 ^ 31) ns \<and>
          distinct (map (val st) ns))"

definition q_values :: "queue_t \<Rightarrow> mem \<Rightarrow> string list option" where
  "q_values q st =
     (case q_nodes q st of None \<Rightarrow> None | Some ns \<Rightarrow> those (map (str_of st) ns))"

text \<open>
  \<open>queue_rep q st ns\<close>: the queue \<open>q\<close> consists of the nodes \<open>ns\<close> in the memory \<open>st\<close>. This is
  the invariant and the ownership together, with the list of nodes named; the proofs
  work with it.
\<close>

definition queue_rep :: "queue_t \<Rightarrow> mem \<Rightarrow> addr list \<Rightarrow> bool" where
  "queue_rep q st ns \<longleftrightarrow>
     chain st (head q) ns \<and> count_q q = int (length ns) \<and>
     last_element q = (if ns = [] then None else Some (last ns)) \<and>
     (\<forall>a\<in>set ns. \<exists>v. str_of st a = Some v \<and> length v < 2 ^ 31) \<and>
     distinct (map (val st) ns)"

text \<open>The memory after a new node \<open>n\<close> with the string block \<open>v\<close> has been set up.\<close>

definition new_mem :: "mem \<Rightarrow> addr \<Rightarrow> addr \<Rightarrow> string \<Rightarrow> addr option \<Rightarrow> mem" where
  "new_mem st n v s nx =
     st\<lparr>eles := (eles st)(n \<mapsto> \<lparr>e_value = Some v, e_next = nx\<rparr>),
        strs := (strs st)(v \<mapsto> c_str s @ [NUL])\<rparr>"

text \<open>
  \<open>relinked S st st'\<close>: the memory \<open>st'\<close> differs from \<open>st\<close> at most in the \<^verbatim>\<open>next\<close> fields
  of the nodes in \<open>S\<close>: the same blocks are allocated, every node keeps its \<^verbatim>\<open>value\<close>
  pointer, and no string has changed.
\<close>

definition relinked :: "addr set \<Rightarrow> mem \<Rightarrow> mem \<Rightarrow> bool" where
  "relinked S st st' \<longleftrightarrow>
     strs st' = strs st \<and> (\<forall>a. val st' a = val st a) \<and>
     (\<forall>a. a \<notin> S \<longrightarrow> eles st' a = eles st a)"

section \<open>The sort on lists of nodes\<close>

text \<open>
  What the merge loop and \<^verbatim>\<open>mergesort\<close> do to the sequence of nodes, with \<open>k\<close> giving the
  string of a node. The merge takes the front node of the left list only when the
  comparison is negative, as the loop does; \<^verbatim>\<open>mergesort\<close> cuts a chain of \<open>n\<close> nodes after
  the first \<open>(n + 1) div 2\<close>, where the scan with the two pointers stops.
\<close>

fun merge_nodes :: "(addr \<Rightarrow> string) \<Rightarrow> addr list \<Rightarrow> addr list \<Rightarrow> addr list" where
  "merge_nodes k [] rs = rs"
| "merge_nodes k (l # ls) [] = l # ls"
| "merge_nodes k (l # ls) (r # rs) =
     (if strcmp (k l) (k r) < 0 then l # merge_nodes k ls (r # rs)
      else r # merge_nodes k (l # ls) rs)"

function msort_nodes :: "(addr \<Rightarrow> string) \<Rightarrow> addr list \<Rightarrow> addr list" where
  "msort_nodes k ns =
     (if length ns \<le> 1 then ns
      else merge_nodes k (msort_nodes k (take ((length ns + 1) div 2) ns))
             (msort_nodes k (drop ((length ns + 1) div 2) ns)))"
  by pat_completeness auto
termination
  by (relation "measure (\<lambda>(k, ns). length ns)") auto

definition key :: "mem \<Rightarrow> addr \<Rightarrow> string" where
  "key st a = (case str_of st a of None \<Rightarrow> [] | Some w \<Rightarrow> w)"

section \<open>Observations and example queues\<close>

text \<open>\<open>precedes a b xs\<close>: \<open>a\<close> occurs in \<open>xs\<close>, and \<open>b\<close> occurs after the first \<open>a\<close>.\<close>

definition precedes :: "'a \<Rightarrow> 'a \<Rightarrow> 'a list \<Rightarrow> bool" where
  "precedes a b xs \<longleftrightarrow> a \<in> set xs \<and> b \<in> set (tl (dropWhile (\<lambda>x. x \<noteq> a) xs))"

text \<open>What a call left behind: the nodes and the strings of the queue it returned.\<close>

definition result_nodes :: "(queue_t option \<times> mem) option \<Rightarrow> addr list option" where
  "result_nodes r = (case r of Some (Some q, st) \<Rightarrow> q_nodes q st | _ \<Rightarrow> None)"

definition result_values :: "(queue_t option \<times> mem) option \<Rightarrow> string list option" where
  "result_values r = (case r of Some (Some q, st) \<Rightarrow> q_values q st | _ \<Rightarrow> None)"

text \<open>The flag and the bytes written by a call of \<^verbatim>\<open>q_remove_head\<close>.\<close>

definition removed :: "(bool \<times> queue_t option \<times> string option \<times> mem) option
    \<Rightarrow> (bool \<times> string option) option" where
  "removed r = (case r of Some (ok, q, w, st) \<Rightarrow> Some (ok, w) | None \<Rightarrow> None)"

text \<open>
  The sequence of the test for first-in-first-out: two insertions at the tail, then two
  removals at the head into buffers of \<open>b1\<close> and \<open>b2\<close> bytes. The result is the flag of
  each call and what each removal wrote.
\<close>

definition fifo_scenario ::
  "queue_t option \<Rightarrow> mem \<Rightarrow> string \<Rightarrow> string \<Rightarrow> addr option \<Rightarrow> addr option
     \<Rightarrow> addr option \<Rightarrow> addr option \<Rightarrow> size_t \<Rightarrow> size_t
     \<Rightarrow> (bool \<times> bool \<times> bool \<times> string option \<times> bool \<times> string option) option" where
  "fifo_scenario q st s1 s2 r1 r2 r3 r4 b1 b2 =
     do {
       (ok1, q1, st1) \<leftarrow> q_insert_tail q s1 r1 r2 st;
       (ok2, q2, st2) \<leftarrow> q_insert_tail q1 s2 r3 r4 st1;
       (ok3, q3, w3, st3) \<leftarrow> q_remove_head q2 True b1 st2;
       (ok4, q4, w4, st4) \<leftarrow> q_remove_head q3 True b2 st3;
       Some (ok1, ok2, ok3, w3, ok4, w4)
     }"

text \<open>The empty memory, and the queue that \<^verbatim>\<open>q_new\<close> returns.\<close>

definition mem0 :: mem where
  "mem0 = \<lparr>eles = Map.empty, strs = Map.empty\<rparr>"

definition queue0 :: queue_t where
  "queue0 = \<lparr>head = None, last_element = None, count_q = 0\<rparr>"

text \<open>A queue of three nodes holding banana, apple and cherry.\<close>

definition ex_mem :: mem where
  "ex_mem =
     \<lparr>eles = [0 \<mapsto> \<lparr>e_value = Some 10, e_next = Some 1\<rparr>,
              1 \<mapsto> \<lparr>e_value = Some 11, e_next = Some 2\<rparr>,
              2 \<mapsto> \<lparr>e_value = Some 12, e_next = None\<rparr>],
      strs = [10 \<mapsto> ''banana'' @ [NUL], 11 \<mapsto> ''apple'' @ [NUL],
              12 \<mapsto> ''cherry'' @ [NUL]]\<rparr>"

definition ex_queue :: queue_t where
  "ex_queue = \<lparr>head = Some 0, last_element = Some 2, count_q = 3\<rparr>"

text \<open>
  A queue of two nodes with equal strings: the memory and the queue after
  \<^verbatim>\<open>q_insert_tail(q, "x")\<close> twice on the empty queue, the allocator returning the blocks
  0 and 1 for the first node and its string, 2 and 3 for the second.
\<close>

definition eq_mem :: mem where
  "eq_mem =
     \<lparr>eles = [0 \<mapsto> \<lparr>e_value = Some 1, e_next = Some 2\<rparr>,
              2 \<mapsto> \<lparr>e_value = Some 3, e_next = None\<rparr>],
      strs = [1 \<mapsto> ''x'' @ [NUL], 3 \<mapsto> ''x'' @ [NUL]]\<rparr>"

definition eq_queue :: queue_t where
  "eq_queue = \<lparr>head = Some 0, last_element = Some 2, count_q = 2\<rparr>"

text \<open>A queue of one node holding the string x.\<close>

definition one_mem :: mem where
  "one_mem =
     \<lparr>eles = [0 \<mapsto> \<lparr>e_value = Some 1, e_next = None\<rparr>],
      strs = [1 \<mapsto> ''x'' @ [NUL]]\<rparr>"

definition one_queue :: queue_t where
  "one_queue = \<lparr>head = Some 0, last_element = Some 0, count_q = 1\<rparr>"

text \<open>A string of \<open>2^32 - 1\<close> bytes.\<close>

definition long_string :: string where
  "long_string = replicate 4294967295 (CHR ''a'')"

text \<open>Did a call return a queue that satisfies the representation invariant?\<close>

definition returns_inv :: "(bool \<times> queue_t option \<times> mem) option \<Rightarrow> bool" where
  "returns_inv r = (case r of Some (ok, Some q, st) \<Rightarrow> rep_inv q st | _ \<Rightarrow> False)"

section \<open>Chains of nodes\<close>

lemma deref_simps [simp]: "deref st None = None" "deref st (Some a) = eles st a"
  by (simp_all add: deref_def)

lemma chain_None [simp]: "chain st None ns \<longleftrightarrow> ns = []"
  by (cases ns) auto

lemma chain_Cons_nxt: "chain st p (a # as) \<longleftrightarrow> p = Some a \<and> (\<exists>n. nxt st a = Some n \<and> chain st n as)"
  by (cases "nxt st a") auto

declare chain.simps(2) [simp del]

lemma chain_Some: "chain st (Some a) ns \<longleftrightarrow> (\<exists>n as. ns = a # as \<and> nxt st a = Some n \<and> chain st n as)"
  by (cases ns) (auto simp: chain_Cons_nxt)

lemma chain_unique: "chain st p xs \<Longrightarrow> chain st p ys \<Longrightarrow> xs = ys"
proof (induction xs arbitrary: p ys)
  case Nil
  then show ?case by simp
next
  case (Cons a xs)
  then show ?case by (cases ys) (auto simp: chain_Cons_nxt)
qed

lemma chain_append:
  "chain st p (xs @ a # ys) \<Longrightarrow> chain st (Some a) (a # ys)"
  by (induction xs arbitrary: p) (auto simp: chain_Cons_nxt)

lemma chain_distinct: "chain st p ns \<Longrightarrow> distinct ns"
proof (induction ns arbitrary: p)
  case Nil
  then show ?case by simp
next
  case (Cons a as)
  from Cons.prems obtain n where n: "nxt st a = Some n" "chain st n as"
    by (auto simp: chain_Cons_nxt)
  have "a \<notin> set as"
  proof
    assume "a \<in> set as"
    then obtain us vs where as: "as = us @ a # vs" by (auto simp: in_set_conv_decomp)
    with n have "chain st (Some a) (a # vs)" by (auto dest: chain_append)
    moreover from Cons.prems have "chain st (Some a) (a # as)" by (simp add: chain_Cons_nxt)
    ultimately have "a # vs = a # as" by (rule chain_unique)
    with as show False by simp
  qed
  with n Cons.IH show ?case by simp
qed

lemma chain_frame:
  "chain st p ns \<Longrightarrow> (\<And>a. a \<in> set ns \<Longrightarrow> nxt st' a = nxt st a) \<Longrightarrow> chain st' p ns"
proof (induction ns arbitrary: p)
  case Nil
  then show ?case by simp
next
  case (Cons a as)
  then show ?case by (auto simp: chain_Cons_nxt)
qed

lemma path_Some_chain: "path st p n = Some ns \<Longrightarrow> chain st p ns \<and> length ns = n"
proof (induction n arbitrary: p ns)
  case 0
  then show ?case by (simp split: if_splits)
next
  case (Suc n)
  from Suc.prems obtain a e where p: "p = Some a" and e: "eles st a = Some e"
    by (cases p; cases "eles st (the p)") auto
  with Suc.prems obtain as where as: "path st (e_next e) n = Some as" and ns: "ns = a # as"
    by auto
  from Suc.IH [OF as] p e ns show ?case
    by (simp add: chain_Cons_nxt nxt_def)
qed

lemma chain_path: "chain st p ns \<Longrightarrow> path st p (length ns) = Some ns"
proof (induction ns arbitrary: p)
  case Nil
  then show ?case by simp
next
  case (Cons a as)
  then obtain e where "p = Some a" "eles st a = Some e" "chain st (e_next e) as"
    by (auto simp: chain_Cons_nxt nxt_def)
  with Cons.IH show ?case by simp
qed

lemma path_chain: "path st p n = Some ns \<longleftrightarrow> chain st p ns \<and> length ns = n"
  using path_Some_chain chain_path by blast

lemma chain_last_nxt:
  "chain st p ns \<Longrightarrow> ns \<noteq> [] \<Longrightarrow> nxt st (last ns) = Some None"
  by (induction ns arbitrary: p) (auto simp: chain_Cons_nxt)

lemma chain_split:
  "chain st p (xs @ ys) \<Longrightarrow> xs \<noteq> [] \<Longrightarrow> \<exists>n. nxt st (last xs) = Some n \<and> chain st n ys"
  by (induction xs arbitrary: p) (auto simp: chain_Cons_nxt)

lemma chain_cut:
  "chain st p (xs @ ys) \<Longrightarrow> xs \<noteq> [] \<Longrightarrow>
   (\<And>a. a \<in> set (butlast xs) \<Longrightarrow> nxt st' a = nxt st a) \<Longrightarrow>
   nxt st' (last xs) = Some None \<Longrightarrow> chain st' p xs"
proof (induction xs arbitrary: p)
  case Nil
  then show ?case by simp
next
  case (Cons a xs)
  then show ?case by (cases "xs = []") (auto simp: chain_Cons_nxt)
qed

lemma chain_snoc:
  "chain st p ms \<Longrightarrow> ms \<noteq> [] \<Longrightarrow>
   (\<And>a. a \<in> set (butlast ms) \<Longrightarrow> nxt st' a = nxt st a) \<Longrightarrow>
   nxt st' (last ms) = Some (Some x) \<Longrightarrow> nxt st' x = Some None \<Longrightarrow>
   chain st' p (ms @ [x])"
proof (induction ms arbitrary: p)
  case Nil
  then show ?case by simp
next
  case (Cons a ms)
  then show ?case by (cases "ms = []") (auto simp: chain_Cons_nxt)
qed


section \<open>Machine integers\<close>

lemma ucast_len: "L < 2 ^ 31 \<Longrightarrow> (ucast (word_of_nat L :: 64 word) :: 32 word) = word_of_nat L"
  by (simp add: unsigned_of_nat take_bit_nat_eq_self)

lemma sint_len: "L < 2 ^ 31 \<Longrightarrow> sint (word_of_nat L :: 32 word) = int L"
  by (simp add: signed_of_nat signed_take_bit_int_eq_self)

lemma scast_len: "L < 2 ^ 31 \<Longrightarrow> (scast (word_of_nat L :: 32 word) :: 64 word) = word_of_nat L"
  by (simp add: scast_eq sint_len)

lemma unat_len: "L < 2 ^ 31 \<Longrightarrow> unat (word_of_nat L :: 64 word) = L"
  by (simp add: unat_of_nat take_bit_nat_eq_self)

lemma count_incr: "(c :: int) = int n \<Longrightarrow> c + 1 = int (Suc n)"
  by simp

lemma count_decr: "(c :: int) = int (Suc n) \<Longrightarrow> c - 1 = int n"
  by simp

lemma realBufsize_min:
  fixes bufsize :: "64 word"
  assumes "lv < 2 ^ 31"
  shows "unat (scast (ucast (if word_of_nat lv < bufsize - 1 then word_of_nat lv else bufsize - 1)
            :: 32 word) :: 64 word) = min lv (unat (bufsize - 1))"
proof -
  let ?m = "if (word_of_nat lv :: 64 word) < bufsize - 1 then word_of_nat lv else bufsize - 1"
  have lv: "unat (word_of_nat lv :: 64 word) = lv" using assms by (rule unat_len)
  have m: "unat ?m = min lv (unat (bufsize - 1))"
    by (auto simp: word_less_nat_alt lv)
  then have small: "unat ?m < 2 ^ 31" using assms by linarith
  have "?m = word_of_nat (unat ?m)" by simp
  then have "unat (scast (ucast ?m :: 32 word) :: 64 word)
      = unat (scast (ucast (word_of_nat (unat ?m) :: 64 word) :: 32 word) :: 64 word)"
    by simp
  also have "\<dots> = unat ?m"
    using small by (simp only: ucast_len scast_len unat_len)
  finally show ?thesis using m by simp
qed


section \<open>The representation invariant and the list of nodes\<close>

lemma q_nodes_Some: "q_nodes q st = Some ns \<longleftrightarrow> chain st (head q) ns \<and> count_q q = int (length ns)"
  by (auto simp: q_nodes_def path_chain)

lemma queue_rep_nodes: "queue_rep q st ns \<Longrightarrow> q_nodes q st = Some ns"
  by (simp add: q_nodes_Some queue_rep_def)

lemma count_zero_iff: "(c :: int) = int n \<Longrightarrow> c = 0 \<longleftrightarrow> n = 0"
  by simp

lemma chain_head_None: "chain st p ns \<Longrightarrow> p = None \<longleftrightarrow> ns = []"
  by (cases ns) (auto simp: chain_Cons_nxt)

lemma queue_rep_valid: "queue_rep q st ns \<Longrightarrow> rep_inv q st \<and> owns q st"
proof -
  assume r: "queue_rep q st ns"
  then have n: "q_nodes q st = Some ns" by (rule queue_rep_nodes)
  from r have c: "chain st (head q) ns" and k: "count_q q = int (length ns)"
    by (simp_all add: queue_rep_def)
  have d: "distinct ns" using c by (rule chain_distinct)
  have z: "count_q q = 0 \<longleftrightarrow> ns = []" using count_zero_iff [OF k] by simp
  have h: "head q = None \<longleftrightarrow> ns = []" using c by (rule chain_head_None)
  have l: "ns \<noteq> [] \<Longrightarrow> nxt st (last ns) = Some None" using c by (rule chain_last_nxt)
  have "rep_inv q st"
    using r d z h l by (simp add: rep_inv_def n queue_rep_def)
  moreover have "owns q st"
    using r by (auto simp: owns_def n queue_rep_def list_all_iff)
  ultimately show ?thesis ..
qed

lemma valid_queue_rep: "rep_inv q st \<Longrightarrow> owns q st \<Longrightarrow> \<exists>ns. queue_rep q st ns"
proof -
  assume i: "rep_inv q st" and o: "owns q st"
  then obtain ns where n: "q_nodes q st = Some ns"
    by (cases "q_nodes q st") (auto simp: rep_inv_def)
  then have c: "chain st (head q) ns" and k: "count_q q = int (length ns)"
    by (simp_all add: q_nodes_Some)
  have z: "count_q q = 0 \<longleftrightarrow> ns = []" using count_zero_iff [OF k] by simp
  have "last_element q = (if ns = [] then None else Some (last ns))"
    using i z by (auto simp: rep_inv_def n split: option.splits)
  moreover have "\<forall>a\<in>set ns. \<exists>v. str_of st a = Some v \<and> length v < 2 ^ 31"
    using o by (auto simp: owns_def n list_all_iff split: option.splits)
  moreover have "distinct (map (val st) ns)"
    using o by (simp add: owns_def n)
  ultimately have "queue_rep q st ns" using c k by (simp add: queue_rep_def)
  then show ?thesis ..
qed


section \<open>Insertion\<close>

lemma malloc_ele_fresh:
  "\<not> allocated st n \<Longrightarrow>
   malloc_ele (Some n) st = (Some n, st\<lparr>eles := (eles st)(n \<mapsto> \<lparr>e_value = None, e_next = None\<rparr>)\<rparr>)"
  by (simp add: malloc_ele_def)

lemma malloc_str_fresh:
  "\<not> allocated st v \<Longrightarrow> unat k < 2 ^ 63 \<Longrightarrow>
   malloc_str (Some v) k st = (Some v, st\<lparr>strs := (strs st)(v \<mapsto> replicate (unat k) NUL)\<rparr>)"
  by (simp add: malloc_str_def)

lemma set_next_Some:
  "eles st a = Some e \<Longrightarrow>
   set_next (Some a) n st = Some (st\<lparr>eles := (eles st)(a \<mapsto> e\<lparr>e_next := n\<rparr>)\<rparr>)"
  by (simp add: set_next_def)

lemma set_value_Some:
  "eles st a = Some e \<Longrightarrow>
   set_value (Some a) v st = Some (st\<lparr>eles := (eles st)(a \<mapsto> e\<lparr>e_value := v\<rparr>)\<rparr>)"
  by (simp add: set_value_def)

lemma strncpy_Some:
  "strs st a = Some b \<Longrightarrow> unat n \<le> length b \<Longrightarrow>
   strncpy (Some a) s n st =
     Some (st\<lparr>strs := (strs st)(a \<mapsto>
        take (unat n) (c_str s) @ replicate (unat n - length (c_str s)) NUL @ drop (unat n) b)\<rparr>)"
  by (simp add: strncpy_def)

lemma store_char_Some:
  "strs st a = Some b \<Longrightarrow> 0 \<le> i \<Longrightarrow> i < int (length b) \<Longrightarrow>
   store_char (Some a) i c st = Some (st\<lparr>strs := (strs st)(a \<mapsto> b[nat i := c])\<rparr>)"
  by (simp add: store_char_def)

lemma drop_replicate_Cons: "drop n (x # replicate n x) = [x]"
  by (induction n) simp_all

lemma len_facts:
  assumes "length (c_str s) < 2 ^ 31 - 1"
  shows "(ucast (strlen s) :: 32 word) = word_of_nat (length (c_str s))"
    and "unat (scast ((word_of_nat (length (c_str s)) :: 32 word) + 1) :: 64 word)
           = Suc (length (c_str s))"
    and "unat (scast (word_of_nat (length (c_str s)) :: 32 word) :: 64 word) = length (c_str s)"
    and "sint (word_of_nat (length (c_str s)) :: 32 word) = int (length (c_str s))"
proof -
  let ?L = "length (c_str s)"
  from assms have L: "?L < 2 ^ 31" and L1: "Suc ?L < 2 ^ 31" by simp_all
  show "(ucast (strlen s) :: 32 word) = word_of_nat ?L"
    unfolding strlen_def using L by (rule ucast_len)
  have "(word_of_nat ?L :: 32 word) + 1 = word_of_nat (Suc ?L)" by simp
  then show "unat (scast ((word_of_nat ?L :: 32 word) + 1) :: 64 word) = Suc ?L"
    using L1 by (simp only: scast_len unat_len)
  show "unat (scast (word_of_nat ?L :: 32 word) :: 64 word) = ?L"
    using L by (simp only: scast_len unat_len)
  show "sint (word_of_nat ?L :: 32 word) = int ?L"
    using L by (simp only: sint_len)
qed

lemma q_insert_head_success:
  assumes n: "\<not> allocated st n" and v: "\<not> allocated st v" and nv: "n \<noteq> v"
    and s: "length (c_str s) < 2 ^ 31 - 1"
  shows "q_insert_head (Some q) s (Some n) (Some v) st =
     Some (True,
       Some (q\<lparr>head := Some n, count_q := count_q q + 1,
               last_element := (if head q = None then Some n else last_element q)\<rparr>),
       new_mem st n v s (head q))"
proof -
  let ?st1 = "st\<lparr>eles := (eles st)(n \<mapsto> \<lparr>e_value = None, e_next = None\<rparr>)\<rparr>"
  have v1: "\<not> allocated ?st1 v" using v nv by (simp add: allocated_def)
  note lf = len_facts [OF s]
  have k: "unat (scast ((word_of_nat (length (c_str s)) :: 32 word) + 1) :: 64 word) < 2 ^ 63"
    using s by (simp only: lf(2)) simp
  show ?thesis
    unfolding q_insert_head_def
    by (simp add: malloc_ele_fresh [OF n] malloc_str_fresh [OF v1 k] set_value_Some
          strncpy_Some store_char_Some set_next_Some lf new_mem_def list_update_append
          drop_replicate_Cons Let_def)
qed

lemma q_insert_tail_success_empty:
  assumes n: "\<not> allocated st n" and v: "\<not> allocated st v" and nv: "n \<noteq> v"
    and s: "length (c_str s) < 2 ^ 31 - 1"
    and t: "last_element q = None"
  shows "q_insert_tail (Some q) s (Some n) (Some v) st =
     Some (True,
       Some (q\<lparr>head := Some n, last_element := Some n, count_q := count_q q + 1\<rparr>),
       new_mem st n v s None)"
proof -
  let ?st1 = "st\<lparr>eles := (eles st)(n \<mapsto> \<lparr>e_value = None, e_next = None\<rparr>)\<rparr>"
  have v1: "\<not> allocated ?st1 v" using v nv by (simp add: allocated_def)
  note lf = len_facts [OF s]
  have k: "unat (scast ((word_of_nat (length (c_str s)) :: 32 word) + 1) :: 64 word) < 2 ^ 63"
    using s by (simp only: lf(2)) simp
  show ?thesis
    unfolding q_insert_tail_def using t
    by (simp add: malloc_ele_fresh [OF n] malloc_str_fresh [OF v1 k] set_value_Some
        strncpy_Some store_char_Some set_next_Some lf new_mem_def list_update_append
        drop_replicate_Cons Let_def)
qed

lemma q_insert_tail_success:
  assumes n: "\<not> allocated st n" and v: "\<not> allocated st v" and nv: "n \<noteq> v"
    and s: "length (c_str s) < 2 ^ 31 - 1"
    and t: "last_element q = Some t" and e: "eles st t = Some e"
  shows "q_insert_tail (Some q) s (Some n) (Some v) st =
     Some (True,
       Some (q\<lparr>last_element := Some n, count_q := count_q q + 1\<rparr>),
       (new_mem st n v s None)
          \<lparr>eles := (eles (new_mem st n v s None))(t \<mapsto> e\<lparr>e_next := Some n\<rparr>)\<rparr>)"
proof -
  let ?st1 = "st\<lparr>eles := (eles st)(n \<mapsto> \<lparr>e_value = None, e_next = None\<rparr>)\<rparr>"
  have v1: "\<not> allocated ?st1 v" using v nv by (simp add: allocated_def)
  note lf = len_facts [OF s]
  have k: "unat (scast ((word_of_nat (length (c_str s)) :: 32 word) + 1) :: 64 word) < 2 ^ 63"
    using s by (simp only: lf(2)) simp
  have tn: "t \<noteq> n"
    using e n by (auto simp: allocated_def)
  show ?thesis
    unfolding q_insert_tail_def using t e tn
    by (simp add: malloc_ele_fresh [OF n] malloc_str_fresh [OF v1 k] set_value_Some
        strncpy_Some store_char_Some set_next_Some lf new_mem_def list_update_append
        drop_replicate_Cons Let_def)
qed


section \<open>Removal and failed insertions\<close>

lemma c_str_idem [simp]: "c_str (c_str b) = c_str b"
  by (simp add: c_str_def takeWhile_idem)

lemma c_str_less: "NUL \<in> set b \<Longrightarrow> length (c_str b) < length b"
  unfolding c_str_def by (induction b) auto

lemma take_c_str: "n \<le> length (c_str b) \<Longrightarrow> take n b = take n (c_str b)"
proof -
  assume n: "n \<le> length (c_str b)"
  have "b = c_str b @ dropWhile (\<lambda>c. c \<noteq> NUL) b" by (simp add: c_str_def)
  then have "take n b = take n (c_str b @ dropWhile (\<lambda>c. c \<noteq> NUL) b)" by simp
  also have "\<dots> = take n (c_str b)" using n by simp
  finally show ?thesis .
qed

lemma load_str_Some:
  "strs st vp = Some b \<Longrightarrow> NUL \<in> set b \<Longrightarrow> load_str st (Some vp) = Some (c_str b)"
  by (simp add: load_str_def)

lemma free_str_Some:
  "strs st vp = Some b \<Longrightarrow> free_str (Some vp) st = Some (st\<lparr>strs := (strs st)(vp := None)\<rparr>)"
  by (simp add: free_str_def)

lemma free_ele_Some:
  "eles st a = Some e \<Longrightarrow> free_ele (Some a) st = Some (st\<lparr>eles := (eles st)(a := None)\<rparr>)"
  by (simp add: free_ele_def)

lemma q_remove_head_success:
  assumes h: "head q = Some h" and e: "eles st h = Some e" and vp: "e_value e = Some vp"
    and b: "strs st vp = Some b" and nul: "NUL \<in> set b" and len: "length (c_str b) < 2 ^ 31"
  shows "q_remove_head (Some q) sp bufsize st =
     Some (True,
       Some (q\<lparr>head := e_next e, count_q := count_q q - 1,
               last_element := (if e_next e = None then None else last_element q)\<rparr>),
       (if sp then Some (take (min (length (c_str b)) (unat (bufsize - 1))) (c_str b) @ [NUL])
        else None),
       st\<lparr>strs := (strs st)(vp := None), eles := (eles st)(h := None)\<rparr>)"
proof -
  let ?n = "min (length (c_str b)) (unat (bufsize - 1))"
  have rb: "unat (scast (ucast (if strlen (c_str b) < bufsize - 1
        then strlen (c_str b) else bufsize - 1) :: 32 word) :: 64 word) = ?n"
    unfolding strlen_def c_str_idem using len by (rule realBufsize_min)
  have rb1: "strlen (c_str b) < bufsize - 1 \<Longrightarrow>
      unat (scast (ucast (strlen (c_str b)) :: 32 word) :: 64 word) = ?n"
    using rb by simp
  have rb2: "\<not> strlen (c_str b) < bufsize - 1 \<Longrightarrow>
      unat (scast (ucast (bufsize - 1) :: 32 word) :: 64 word) = ?n"
    using rb by simp
  have n: "\<not> length b < ?n" using c_str_less [OF nul] by simp
  have t: "take ?n b = take ?n (c_str b)" by (rule take_c_str) simp
  show ?thesis
  proof (cases sp)
    case True
    then show ?thesis
      unfolding q_remove_head_def
      using h e vp b n t
      by (simp add: load_str_Some [OF b nul] load_block_def rb1 rb2 free_str_Some
            free_ele_Some Let_def del: min_less_iff_conj)
  next
    case False
    then show ?thesis
      unfolding q_remove_head_def
      using h e vp b
      by (simp add: free_str_Some free_ele_Some Let_def)
  qed
qed

lemma q_remove_head_fail:
  "q_remove_head None sp bufsize st = Some (False, None, None, st)"
  "head q = None \<Longrightarrow> q_remove_head (Some q) sp bufsize st = Some (False, Some q, None, st)"
  by (simp_all add: q_remove_head_def)

lemma q_insert_head_fail1:
  "fst (malloc_ele r1 st) = None \<Longrightarrow> q_insert_head (Some q) s r1 r2 st = Some (False, Some q, st)"
  by (auto simp: q_insert_head_def malloc_ele_def Let_def split: option.splits if_splits)

lemma q_insert_tail_fail1:
  "fst (malloc_ele r1 st) = None \<Longrightarrow> q_insert_tail (Some q) s r1 r2 st = Some (False, Some q, st)"
  by (auto simp: q_insert_tail_def malloc_ele_def Let_def split: option.splits if_splits)

lemma malloc_ele_cases:
  obtains "malloc_ele r st = (None, st)"
  | n where "r = Some n" "\<not> allocated st n"
      "malloc_ele r st = (Some n, st\<lparr>eles := (eles st)(n \<mapsto> \<lparr>e_value = None, e_next = None\<rparr>)\<rparr>)"
proof (cases r)
  case None
  then show ?thesis using that(1) by (simp add: malloc_ele_def)
next
  case (Some n)
  then show ?thesis using that by (cases "allocated st n") (simp_all add: malloc_ele_def)
qed

lemma malloc_str_cases:
  obtains "malloc_str r k st = (None, st)"
  | v where "r = Some v" "\<not> allocated st v" "unat k < 2 ^ 63"
      "malloc_str r k st = (Some v, st\<lparr>strs := (strs st)(v \<mapsto> replicate (unat k) NUL)\<rparr>)"
proof (cases r)
  case None
  then show ?thesis using that(1) by (simp add: malloc_str_def)
next
  case (Some v)
  then show ?thesis using that
    by (cases "allocated st v \<or> 2 ^ 63 \<le> unat k") (simp_all add: malloc_str_def)
qed

lemma mem_eles_restore:
  "\<not> allocated st n \<Longrightarrow> st\<lparr>eles := (eles st)(n := None)\<rparr> = st"
  by (cases st) (auto simp: allocated_def fun_eq_iff)

lemma q_insert_head_fail2:
  assumes "fst (malloc_str r2 (scast ((ucast (strlen s) :: 32 word) + 1)) (snd (malloc_ele r1 st))) = None"
  shows "q_insert_head (Some q) s r1 r2 st = Some (False, Some q, st)"
proof (cases r1 st rule: malloc_ele_cases)
  case 1
  then show ?thesis by (simp add: q_insert_head_fail1)
next
  case (2 n)
  let ?st1 = "st\<lparr>eles := (eles st)(n \<mapsto> \<lparr>e_value = None, e_next = None\<rparr>)\<rparr>"
  let ?k = "scast ((ucast (strlen s) :: 32 word) + 1) :: 64 word"
  from assms 2 have "malloc_str r2 ?k ?st1 = (None, ?st1)"
    by (cases r2 ?k ?st1 rule: malloc_str_cases) simp_all
  with 2 show ?thesis
    unfolding q_insert_head_def
    by (simp add: set_value_Some free_ele_Some mem_eles_restore Let_def)
qed

lemma q_insert_tail_fail2:
  assumes "fst (malloc_str r2 (scast ((ucast (strlen s) :: 32 word) + 1)) (snd (malloc_ele r1 st))) = None"
  shows "q_insert_tail (Some q) s r1 r2 st = Some (False, Some q, st)"
proof (cases r1 st rule: malloc_ele_cases)
  case 1
  then show ?thesis by (simp add: q_insert_tail_fail1)
next
  case (2 n)
  let ?st1 = "st\<lparr>eles := (eles st)(n \<mapsto> \<lparr>e_value = None, e_next = None\<rparr>)\<rparr>"
  let ?k = "scast ((ucast (strlen s) :: 32 word) + 1) :: 64 word"
  from assms 2 have "malloc_str r2 ?k ?st1 = (None, ?st1)"
    by (cases r2 ?k ?st1 rule: malloc_str_cases) simp_all
  with 2 show ?thesis
    unfolding q_insert_tail_def
    by (simp add: set_value_Some free_ele_Some mem_eles_restore Let_def)
qed


section \<open>Invariant preservation of insertion and removal\<close>

lemma str_of_SomeD:
  assumes "str_of st a = Some w"
  obtains e vp b where "eles st a = Some e" "e_value e = Some vp" "strs st vp = Some b"
    "NUL \<in> set b" "w = c_str b"
proof -
  from assms obtain e where e: "eles st a = Some e" and l: "load_str st (e_value e) = Some w"
    by (cases "eles st a") (auto simp: str_of_def)
  from l obtain vp where vp: "e_value e = Some vp"
    by (cases "e_value e") (auto simp: load_str_def)
  from l vp obtain b where b: "strs st vp = Some b"
    by (cases "strs st vp") (auto simp: load_str_def)
  from l vp b have "NUL \<in> set b" "w = c_str b"
    by (auto simp: load_str_def split: if_splits)
  with e vp b show ?thesis using that by blast
qed

lemma str_of_eq:
  assumes "eles st' a = eles st a"
    and "\<And>e vp. eles st a = Some e \<Longrightarrow> e_value e = Some vp \<Longrightarrow> strs st' vp = strs st vp"
  shows "str_of st' a = str_of st a"
proof (cases "eles st a")
  case None
  with assms(1) show ?thesis by (simp add: str_of_def)
next
  case (Some e)
  show ?thesis
  proof (cases "e_value e")
    case None
    with Some assms(1) show ?thesis by (simp add: str_of_def load_str_def)
  next
    case (Some vp)
    with \<open>eles st a = Some e\<close> assms(1) assms(2) [OF \<open>eles st a = Some e\<close> Some]
    show ?thesis by (simp add: str_of_def load_str_def)
  qed
qed

lemma str_of_cong:
  assumes "val st' a = val st a" and "strs st' = strs st"
  shows "str_of st' a = str_of st a"
proof -
  have 1: "str_of t a = (case val t a of None \<Rightarrow> None | Some p \<Rightarrow> load_str t p)" for t
    by (cases "eles t a") (simp_all add: str_of_def val_def)
  have 2: "load_str st' p = load_str st p" for p
    unfolding load_str_def assms(2) ..
  show ?thesis unfolding 1 assms(1) 2 ..
qed

lemma c_str_terminated [simp]: "c_str (c_str s @ NUL # bs) = c_str s"
  unfolding c_str_def by (induction s) auto

lemma c_str_length_le: "length (c_str s) \<le> length s"
  unfolding c_str_def by (rule length_takeWhile_le)

lemma queue_rep_node:
  assumes "queue_rep q st ns" "a \<in> set ns"
  obtains e vp b where "eles st a = Some e" "e_value e = Some vp" "strs st vp = Some b"
    "NUL \<in> set b" "length (c_str b) < 2 ^ 31" "str_of st a = Some (c_str b)"
proof -
  from assms obtain w where w: "str_of st a = Some w" "length w < 2 ^ 31"
    by (auto simp: queue_rep_def)
  from w(1) obtain e vp b where "eles st a = Some e" "e_value e = Some vp" "strs st vp = Some b"
    "NUL \<in> set b" "w = c_str b" by (rule str_of_SomeD)
  with w show ?thesis using that by blast
qed

lemma new_mem_frame:
  assumes r: "queue_rep q st ns" and n: "\<not> allocated st n" and v: "\<not> allocated st v"
    and a: "a \<in> set ns"
  shows "a \<noteq> n" "eles (new_mem st n v s nx) a = eles st a"
    "str_of (new_mem st n v s nx) a = str_of st a"
proof -
  from r a obtain e vp b where e: "eles st a = Some e" "e_value e = Some vp" "strs st vp = Some b"
    by (rule queue_rep_node)
  from e n show an: "a \<noteq> n" by (auto simp: allocated_def)
  then show el: "eles (new_mem st n v s nx) a = eles st a" by (simp add: new_mem_def)
  from e v have "vp \<noteq> v" by (auto simp: allocated_def)
  with e have "strs (new_mem st n v s nx) vp = strs st vp" by (simp add: new_mem_def)
  with el e show "str_of (new_mem st n v s nx) a = str_of st a"
    by (intro str_of_eq) auto
qed

lemma new_mem_node:
  "eles (new_mem st n v s nx) n = Some \<lparr>e_value = Some v, e_next = nx\<rparr>"
  "str_of (new_mem st n v s nx) n = Some (c_str s)"
  by (simp_all add: new_mem_def str_of_def load_str_def)

lemma new_mem_val_fresh:
  assumes r: "queue_rep q st ns" and v: "\<not> allocated st v"
  shows "Some (Some v) \<notin> val st ` set ns"
proof
  assume "Some (Some v) \<in> val st ` set ns"
  then obtain a where a: "a \<in> set ns" "val st a = Some (Some v)" by auto
  from r a(1) obtain e vp b where "eles st a = Some e" "e_value e = Some vp" "strs st vp = Some b"
    by (rule queue_rep_node)
  with a(2) v show False by (auto simp: val_def allocated_def)
qed

lemma queue_rep_insert_head:
  assumes r: "queue_rep q st ns" and n: "\<not> allocated st n" and v: "\<not> allocated st v"
    and s: "length (c_str s) < 2 ^ 31 - 1"
  shows "queue_rep
     (q\<lparr>head := Some n, count_q := count_q q + 1,
        last_element := (if head q = None then Some n else last_element q)\<rparr>)
     (new_mem st n v s (head q)) (n # ns)"
proof -
  let ?st = "new_mem st n v s (head q)"
  note fr = new_mem_frame [OF r n v]
  from r have c: "chain st (head q) ns" and cnt: "count_q q = int (length ns)"
    and l: "last_element q = (if ns = [] then None else Some (last ns))"
    and d: "distinct (map (val st) ns)"
    by (simp_all add: queue_rep_def)
  have "chain ?st (head q) ns"
    using c by (rule chain_frame) (simp add: nxt_def fr)
  then have 1: "chain ?st (Some n) (n # ns)"
    by (simp add: chain_Cons_nxt nxt_def new_mem_node)
  have 2: "count_q q + 1 = int (length (n # ns))"
    using count_incr [OF cnt] by simp
  have h: "head q = None \<longleftrightarrow> ns = []" using c by (rule chain_head_None)
  have 4: "\<forall>a\<in>set (n # ns). \<exists>w. str_of ?st a = Some w \<and> length w < 2 ^ 31"
    using r s by (auto simp: new_mem_node fr queue_rep_def)
  have m: "map (val ?st) ns = map (val st) ns" by (simp add: val_def fr)
  have vn: "val ?st n = Some (Some v)" by (simp add: val_def new_mem_node)
  have 5: "distinct (map (val ?st) (n # ns))"
    using d new_mem_val_fresh [OF r v] by (simp add: m vn)
  show ?thesis
    unfolding queue_rep_def using 1 2 h l 4 5 by simp
qed

lemma queue_rep_insert_tail:
  assumes r: "queue_rep q st ns" and n: "\<not> allocated st n" and v: "\<not> allocated st v"
    and s: "length (c_str s) < 2 ^ 31 - 1"
    and st': "st' = (case last_element q of
          None \<Rightarrow> new_mem st n v s None
        | Some t \<Rightarrow> (new_mem st n v s None)
            \<lparr>eles := (eles (new_mem st n v s None))(t \<mapsto> (the (eles st t))\<lparr>e_next := Some n\<rparr>)\<rparr>)"
  shows "queue_rep
     (q\<lparr>head := (if last_element q = None then Some n else head q),
        last_element := Some n, count_q := count_q q + 1\<rparr>) st' (ns @ [n])"
    and "str_of st' n = Some (c_str s)" and "\<forall>a\<in>set ns. str_of st' a = str_of st a"
proof -
  let ?st = "new_mem st n v s None"
  note fr = new_mem_frame [OF r n v]
  from r have c: "chain st (head q) ns" and cnt: "count_q q = int (length ns)"
    and l: "last_element q = (if ns = [] then None else Some (last ns))"
    and d: "distinct (map (val st) ns)"
    by (simp_all add: queue_rep_def)
  have notin: "n \<notin> set ns" using fr(1) by blast
  have el: "\<And>a. a \<in> set ns \<Longrightarrow> val st' a = val st a"
  proof -
    fix a assume a: "a \<in> set ns"
    then have ns: "ns \<noteq> []" by auto
    from r obtain e where e: "eles st (last ns) = Some e"
      using ns by (auto elim: queue_rep_node [of q st ns "last ns"])
    from a notin have an: "a \<noteq> n" by auto
    show "val st' a = val st a"
      using l ns e an by (cases "a = last ns") (simp_all add: st' val_def new_mem_def)
  qed
  have strs: "strs st' = strs ?st" using l by (simp add: st' split: option.splits)
  have eln: "eles st' n = Some \<lparr>e_value = Some v, e_next = None\<rparr>"
    using l notin by (auto simp: st' new_mem_def)
  have so: "\<And>a. a \<in> set ns \<Longrightarrow> str_of st' a = str_of st a"
  proof -
    fix a assume a: "a \<in> set ns"
    have "val ?st a = val st a" by (simp add: val_def fr(2) [OF a])
    with el [OF a] have "val st' a = val ?st a" by simp
    then have "str_of st' a = str_of ?st a" using strs by (rule str_of_cong)
    then show "str_of st' a = str_of st a" by (simp add: fr(3) [OF a])
  qed
  then show "\<forall>a\<in>set ns. str_of st' a = str_of st a" by blast
  show sn: "str_of st' n = Some (c_str s)"
    using eln strs by (simp add: str_of_def load_str_def new_mem_def)
  have 1: "chain st' (if last_element q = None then Some n else head q) (ns @ [n])"
  proof (cases "ns = []")
    case True
    then show ?thesis using l eln by (simp add: chain_Cons_nxt nxt_def)
  next
    case False
    with l have t: "last_element q = Some (last ns)" by simp
    from r obtain e where e: "eles st (last ns) = Some e"
      using False by (auto elim: queue_rep_node [of q st ns "last ns"])
    have "chain st' (head q) (ns @ [n])"
    proof (rule chain_snoc [OF c False])
      fix a assume a: "a \<in> set (butlast ns)"
      then have "a \<in> set ns" by (rule in_set_butlastD)
      moreover have "a \<noteq> last ns"
        using a chain_distinct [OF c] False
        by (metis append_butlast_last_id distinct_append disjoint_iff list.set_intros(1))
      ultimately show "nxt st' a = nxt st a"
        using t notin by (auto simp: st' nxt_def new_mem_def)
    next
      show "nxt st' (last ns) = Some (Some n)"
        using t e by (simp add: st' nxt_def)
    next
      show "nxt st' n = Some None" using eln by (simp add: nxt_def)
    qed
    with t show ?thesis by simp
  qed
  have 2: "count_q q + 1 = int (length (ns @ [n]))"
    using count_incr [OF cnt] by simp
  have 4: "\<forall>a\<in>set (ns @ [n]). \<exists>w. str_of st' a = Some w \<and> length w < 2 ^ 31"
    using r s sn so by (auto simp: queue_rep_def)
  have m: "map (val st') ns = map (val st) ns" using el by simp
  have vn: "val st' n = Some (Some v)" using eln by (simp add: val_def)
  have 5: "distinct (map (val st') (ns @ [n]))"
    using d new_mem_val_fresh [OF r v] by (simp add: m vn)
  show "queue_rep
     (q\<lparr>head := (if last_element q = None then Some n else head q),
        last_element := Some n, count_q := count_q q + 1\<rparr>) st' (ns @ [n])"
    unfolding queue_rep_def using 1 2 4 5 by simp
qed

lemma queue_rep_remove_head:
  assumes r: "queue_rep q st (h # ns)" and e: "eles st h = Some e" and vp: "e_value e = Some vp"
    and st': "st' = st\<lparr>strs := (strs st)(vp := None), eles := (eles st)(h := None)\<rparr>"
  shows "queue_rep
     (q\<lparr>head := e_next e, count_q := count_q q - 1,
        last_element := (if e_next e = None then None else last_element q)\<rparr>) st' ns"
    and "\<forall>a\<in>set ns. str_of st' a = str_of st a"
proof -
  from r have c: "chain st (head q) (h # ns)" and cnt: "count_q q = int (Suc (length ns))"
    and l: "last_element q = Some (last (h # ns))"
    and d: "distinct (map (val st) (h # ns))"
    by (simp_all add: queue_rep_def)
  from c e have c': "chain st (e_next e) ns" by (simp add: chain_Cons_nxt nxt_def)
  from chain_distinct [OF c] have hn: "h \<notin> set ns" by simp
  have el: "\<And>a. a \<in> set ns \<Longrightarrow> eles st' a = eles st a"
    using hn by (auto simp: st')
  have 1: "chain st' (e_next e) ns"
    using c' by (rule chain_frame) (simp add: nxt_def el)
  have 2: "count_q q - 1 = int (length ns)" using cnt by (rule count_decr)
  have e0: "e_next e = None \<longleftrightarrow> ns = []" using c' by (rule chain_head_None)
  have so: "\<And>a. a \<in> set ns \<Longrightarrow> str_of st' a = str_of st a"
  proof -
    fix a assume a: "a \<in> set ns"
    show "str_of st' a = str_of st a"
    proof (rule str_of_eq [OF el [OF a]])
      fix e' vp' assume e': "eles st a = Some e'" "e_value e' = Some vp'"
      from d a have "val st a \<noteq> val st h" by (metis distinct.simps(2) image_eqI list.simps(9) set_map)
      with e' e vp have "vp' \<noteq> vp" by (auto simp: val_def)
      then show "strs st' vp' = strs st vp'" by (simp add: st')
    qed
  qed
  then show "\<forall>a\<in>set ns. str_of st' a = str_of st a" by blast
  have 4: "\<forall>a\<in>set ns. \<exists>w. str_of st' a = Some w \<and> length w < 2 ^ 31"
    using r so by (auto simp: queue_rep_def)
  have m: "map (val st') ns = map (val st) ns" by (simp add: val_def el)
  have 5: "distinct (map (val st') ns)" using d by (simp add: m)
  show "queue_rep
     (q\<lparr>head := e_next e, count_q := count_q q - 1,
        last_element := (if e_next e = None then None else last_element q)\<rparr>) st' ns"
    unfolding queue_rep_def using 1 2 e0 l 4 5 by simp
qed

lemma those_map_Some:
  "(\<And>a. a \<in> set ns \<Longrightarrow> f a \<noteq> None) \<Longrightarrow> those (map f ns) = Some (map (\<lambda>a. the (f a)) ns)"
proof (induction ns)
  case Nil
  then show ?case by simp
next
  case (Cons a ns)
  then obtain y where "f a = Some y" by fastforce
  with Cons show ?case by simp
qed

lemma queue_rep_values:
  "queue_rep q st ns \<Longrightarrow> q_values q st = Some (map (\<lambda>a. the (str_of st a)) ns)"
proof -
  assume r: "queue_rep q st ns"
  then have "\<And>a. a \<in> set ns \<Longrightarrow> str_of st a \<noteq> None" by (auto simp: queue_rep_def)
  then have "those (map (str_of st) ns) = Some (map (\<lambda>a. the (str_of st a)) ns)"
    by (rule those_map_Some)
  then show ?thesis by (simp add: q_values_def queue_rep_nodes [OF r])
qed


section \<open>Reversal\<close>

lemma relinked_refl [simp]: "relinked S st st"
  by (simp add: relinked_def)

lemma relinked_trans:
  "relinked S st st1 \<Longrightarrow> relinked T st1 st2 \<Longrightarrow> S \<subseteq> U \<Longrightarrow> T \<subseteq> U \<Longrightarrow> relinked U st st2"
  unfolding relinked_def by (metis subsetD)

lemma relinked_mono: "relinked S st st' \<Longrightarrow> S \<subseteq> T \<Longrightarrow> relinked T st st'"
  by (auto simp: relinked_def)

lemma relinked_set_next:
  "eles st a = Some e \<Longrightarrow> relinked {a} st (st\<lparr>eles := (eles st)(a \<mapsto> e\<lparr>e_next := n\<rparr>)\<rparr>)"
  by (simp add: relinked_def val_def)

lemma relinked_str_of: "relinked S st st' \<Longrightarrow> str_of st' a = str_of st a"
  by (rule str_of_cong) (simp_all add: relinked_def)

lemma relinked_nxt: "relinked S st st' \<Longrightarrow> a \<notin> S \<Longrightarrow> nxt st' a = nxt st a"
  by (simp add: relinked_def nxt_def)

lemma relinked_chain:
  "relinked S st st' \<Longrightarrow> chain st p ns \<Longrightarrow> set ns \<inter> S = {} \<Longrightarrow> chain st' p ns"
proof -
  assume r: "relinked S st st'" and c: "chain st p ns" and d: "set ns \<inter> S = {}"
  show ?thesis
  proof (rule chain_frame [OF c])
    fix a assume "a \<in> set ns"
    with d have "a \<notin> S" by blast
    with r show "nxt st' a = nxt st a" by (rule relinked_nxt)
  qed
qed

lemma relinked_allocated: "relinked S st st' \<Longrightarrow> allocated st' a = allocated st a"
proof -
  assume r: "relinked S st st'"
  then have "val st' a = val st a" "strs st' = strs st" by (simp_all add: relinked_def)
  then show ?thesis by (cases "eles st a"; cases "eles st' a") (simp_all add: allocated_def val_def)
qed

lemma reverse_loop_chain:
  assumes "chain st current cs" "chain st prev ps" "set cs \<inter> set ps = {}"
  shows "\<exists>st'. reverse_loop prev current st =
            Some ((if cs = [] then prev else Some (last cs)), st') \<and>
          chain st' (if cs = [] then prev else Some (last cs)) (rev cs @ ps) \<and>
          relinked (set cs) st st'"
  using assms
proof (induction cs arbitrary: current prev ps st)
  case Nil
  then show ?case by (subst reverse_loop.simps) simp
next
  case (Cons c cs)
  from Cons.prems(1) obtain e where cur: "current = Some c" and e: "eles st c = Some e"
    and c': "chain st (e_next e) cs"
    by (auto simp: chain_Cons_nxt nxt_def)
  let ?st1 = "st\<lparr>eles := (eles st)(c \<mapsto> e\<lparr>e_next := prev\<rparr>)\<rparr>"
  have r1: "relinked {c} st ?st1" using e by (rule relinked_set_next)
  from chain_distinct [OF Cons.prems(1)] have ccs: "c \<notin> set cs" by simp
  from Cons.prems(3) have cps: "c \<notin> set ps" and dis: "set cs \<inter> set ps = {}" by auto
  have 1: "chain ?st1 (e_next e) cs" using r1 c' ccs by (auto intro: relinked_chain)
  have "chain ?st1 prev ps" using r1 Cons.prems(2) cps by (auto intro: relinked_chain)
  then have 2: "chain ?st1 (Some c) (c # ps)" by (simp add: chain_Cons_nxt nxt_def)
  have 3: "set cs \<inter> set (c # ps) = {}" using ccs dis by auto
  from Cons.IH [OF 1 2 3] obtain st' where
    l: "reverse_loop (Some c) (e_next e) ?st1 = Some ((if cs = [] then Some c else Some (last cs)), st')"
    and ch: "chain st' (if cs = [] then Some c else Some (last cs)) (rev cs @ c # ps)"
    and r2: "relinked (set cs) ?st1 st'" by blast
  have "reverse_loop prev current st = Some (Some (last (c # cs)), st')"
    by (subst reverse_loop.simps) (simp add: cur e set_next_Some l)
  moreover have "chain st' (Some (last (c # cs))) (rev (c # cs) @ ps)"
    using ch by (cases "cs = []") simp_all
  moreover have "relinked (set (c # cs)) st st'"
    using r1 r2 by (rule relinked_trans) auto
  ultimately show ?case by auto
qed

lemma queue_rep_relinked:
  assumes r: "queue_rep q st ns" and rl: "relinked S st st'"
    and c: "chain st' (head q') ns'" and s: "set ns' = set ns" and len: "length ns' = length ns"
    and cnt: "count_q q' = count_q q"
    and l: "last_element q' = (if ns' = [] then None else Some (last ns'))"
  shows "queue_rep q' st' ns'"
proof -
  have v: "val st' = val st" using rl by (auto simp: relinked_def)
  have so: "str_of st' a = str_of st a" for a using rl by (rule relinked_str_of)
  from r have d: "distinct (map (val st) ns)" by (simp add: queue_rep_def)
  have dn: "distinct ns" using r chain_distinct by (auto simp: queue_rep_def)
  have dn': "distinct ns'" using c by (rule chain_distinct)
  from d have "inj_on (val st) (set ns)" using dn by (simp add: distinct_map)
  then have "distinct (map (val st') ns')" using dn' s v by (simp add: distinct_map)
  moreover have "\<forall>a\<in>set ns'. \<exists>w. str_of st' a = Some w \<and> length w < 2 ^ 31"
    using r s so by (auto simp: queue_rep_def)
  moreover have "count_q q' = int (length ns')"
    using r cnt len by (simp add: queue_rep_def)
  ultimately show ?thesis using c l by (simp add: queue_rep_def)
qed

lemma q_reverse_rep:
  assumes r: "queue_rep q st ns"
  shows "\<exists>st'. q_reverse (Some q) st =
            Some (Some (q\<lparr>last_element := head q,
                          head := (if ns = [] then None else Some (last ns))\<rparr>), st') \<and>
          queue_rep (q\<lparr>last_element := head q,
                       head := (if ns = [] then None else Some (last ns))\<rparr>) st' (rev ns) \<and>
          relinked (set ns) st st'"
proof -
  from r have c: "chain st (head q) ns" by (simp add: queue_rep_def)
  have "chain st None []" by simp
  with c obtain st' where
    l: "reverse_loop None (head q) st = Some ((if ns = [] then None else Some (last ns)), st')"
    and ch: "chain st' (if ns = [] then None else Some (last ns)) (rev ns @ [])"
    and rl: "relinked (set ns) st st'"
    using reverse_loop_chain [of st "head q" ns None "[]"] by auto
  let ?q = "q\<lparr>last_element := head q, head := (if ns = [] then None else Some (last ns))\<rparr>"
  have 1: "q_reverse (Some q) st = Some (Some ?q, st')"
    by (simp add: q_reverse_def l)
  have h: "head q = (if ns = [] then None else Some (hd ns))"
    using c by (cases ns) (auto simp: chain_Cons_nxt)
  have "queue_rep ?q st' (rev ns)"
    using r rl
  proof (rule queue_rep_relinked)
    show "chain st' (head ?q) (rev ns)" using ch by simp
    show "last_element ?q = (if rev ns = [] then None else Some (last (rev ns)))"
      using h by (simp add: last_rev)
  qed simp_all
  with 1 rl show ?thesis by blast
qed


section \<open>Merge sort on lists of nodes\<close>

declare msort_nodes.simps [simp del]

lemma of_char_NUL: "of_char c = (0::nat) \<longleftrightarrow> c = NUL"
proof -
  have "of_char NUL = (0::nat)" by simp
  then show ?thesis by (metis of_char_eq_iff)
qed

lemma strcmp_less: "NUL \<notin> set a \<Longrightarrow> NUL \<notin> set b \<Longrightarrow> strcmp a b < 0 \<longleftrightarrow> a < b"
proof (induction a b rule: strcmp.induct)
  case 1
  then show ?case by simp
next
  case (2 y ys)
  then have "of_char y \<noteq> (0::nat)" by (auto simp: of_char_NUL)
  then show ?case by simp
next
  case (3 x xs)
  then show ?case by simp
next
  case (4 x xs y ys)
  then show ?case by (auto simp: less_char_def)
qed

lemma c_str_no_NUL: "NUL \<notin> set (c_str b)"
  unfolding c_str_def by (induction b) auto

lemma filter_merge_nodes:
  assumes "sorted (map k ls)" "sorted (map k rs)"
    and "\<And>l r. l \<in> set ls \<Longrightarrow> r \<in> set rs \<Longrightarrow> strcmp (k l) (k r) < 0 \<longleftrightarrow> k l < k r"
  shows "filter (\<lambda>a. k a = c) (merge_nodes k ls rs)
       = filter (\<lambda>a. k a = c) rs @ filter (\<lambda>a. k a = c) ls"
  using assms
proof (induction k ls rs rule: merge_nodes.induct)
  case (1 k rs)
  then show ?case by simp
next
  case (2 k l ls)
  then show ?case by simp
next
  case (3 k l ls r rs)
  show ?case
  proof (cases "strcmp (k l) (k r) < 0")
    case True
    with 3(5) have lt: "k l < k r" by simp
    have IH: "filter (\<lambda>a. k a = c) (merge_nodes k ls (r # rs))
       = filter (\<lambda>a. k a = c) (r # rs) @ filter (\<lambda>a. k a = c) ls"
      using 3(1) [OF True] 3(3,4,5) by simp
    show ?thesis
    proof (cases "k l = c")
      case kl: True
      have "\<forall>x\<in>set (r # rs). k x \<noteq> c"
        using 3(4) lt kl by auto
      then have "filter (\<lambda>a. k a = c) (r # rs) = []" by (simp add: filter_empty_conv)
      with IH True kl show ?thesis by simp
    next
      case False
      with IH True show ?thesis by simp
    qed
  next
    case False
    have IH: "filter (\<lambda>a. k a = c) (merge_nodes k (l # ls) rs)
       = filter (\<lambda>a. k a = c) rs @ filter (\<lambda>a. k a = c) (l # ls)"
      using 3(2) [OF False] 3(3,4,5) by simp
    with False show ?thesis by simp
  qed
qed

lemma mset_merge_nodes: "mset (merge_nodes k ls rs) = mset ls + mset rs"
  by (induction k ls rs rule: merge_nodes.induct) auto

lemma set_merge_nodes: "set (merge_nodes k ls rs) = set ls \<union> set rs"
  by (induction k ls rs rule: merge_nodes.induct) auto

lemma sorted_merge_nodes:
  assumes "sorted (map k ls)" "sorted (map k rs)"
    and "\<And>l r. l \<in> set ls \<Longrightarrow> r \<in> set rs \<Longrightarrow> strcmp (k l) (k r) < 0 \<longleftrightarrow> k l < k r"
  shows "sorted (map k (merge_nodes k ls rs))"
  using assms
proof (induction k ls rs rule: merge_nodes.induct)
  case (1 k rs)
  then show ?case by simp
next
  case (2 k l ls)
  then show ?case by simp
next
  case (3 k l ls r rs)
  show ?case
  proof (cases "strcmp (k l) (k r) < 0")
    case True
    with 3(5) have lt: "k l < k r" by simp
    have "sorted (map k (merge_nodes k ls (r # rs)))"
      using 3(1) [OF True] 3(3,4,5) by simp
    moreover have "\<forall>x\<in>set (merge_nodes k ls (r # rs)). k l \<le> k x"
      using 3(3,4) lt by (auto simp: set_merge_nodes)
    ultimately show ?thesis using True by simp
  next
    case False
    with 3(5) have ge: "k r \<le> k l" by simp
    have "sorted (map k (merge_nodes k (l # ls) rs))"
      using 3(2) [OF False] 3(3,4,5) by simp
    moreover have "\<forall>x\<in>set (merge_nodes k (l # ls) rs). k r \<le> k x"
      using 3(3,4) ge by (auto simp: set_merge_nodes)
    ultimately show ?thesis using False by simp
  qed
qed

lemma msort_nodes_small: "length ns \<le> 1 \<Longrightarrow> msort_nodes k ns = ns"
  by (subst msort_nodes.simps) simp

lemma msort_nodes_big:
  "\<not> length ns \<le> 1 \<Longrightarrow>
   msort_nodes k ns =
     merge_nodes k (msort_nodes k (take ((length ns + 1) div 2) ns))
       (msort_nodes k (drop ((length ns + 1) div 2) ns))"
  by (subst msort_nodes.simps) simp

lemma mset_msort_nodes: "mset (msort_nodes k ns) = mset ns"
proof (induction k ns rule: msort_nodes.induct)
  case (1 k ns)
  show ?case
  proof (cases "length ns \<le> 1")
    case True
    then show ?thesis by (simp add: msort_nodes_small)
  next
    case False
    let ?h = "(length ns + 1) div 2"
    have "mset (msort_nodes k ns) = mset (take ?h ns) + mset (drop ?h ns)"
      unfolding msort_nodes_big [OF False] mset_merge_nodes using 1 [OF False] by simp
    also have "\<dots> = mset (take ?h ns @ drop ?h ns)" by (simp only: mset_append)
    finally show ?thesis by simp
  qed
qed

lemma set_msort_nodes: "set (msort_nodes k ns) = set ns"
  using mset_msort_nodes [of k ns] by (rule mset_eq_setD)

lemma length_msort_nodes: "length (msort_nodes k ns) = length ns"
  using mset_msort_nodes [of k ns] by (rule mset_eq_length)

lemma msort_nodes_props:
  assumes "\<And>a. a \<in> set ns \<Longrightarrow> NUL \<notin> set (k a)"
  shows "sorted (map k (msort_nodes k ns)) \<and>
         filter (\<lambda>a. k a = c) (msort_nodes k ns) = rev (filter (\<lambda>a. k a = c) ns)"
  using assms
proof (induction k ns rule: msort_nodes.induct)
  case (1 k ns)
  show ?case
  proof (cases "length ns \<le> 1")
    case True
    then have "ns = [] \<or> (\<exists>x. ns = [x])" by (cases ns) auto
    then show ?thesis unfolding msort_nodes_small [OF True] by auto
  next
    case False
    let ?h = "(length ns + 1) div 2"
    let ?L = "msort_nodes k (take ?h ns)" and ?R = "msort_nodes k (drop ?h ns)"
    have L: "sorted (map k ?L)" "filter (\<lambda>a. k a = c) ?L = rev (filter (\<lambda>a. k a = c) (take ?h ns))"
      using 1(1) [OF False] 1(3) by (auto dest: in_set_takeD)
    have R: "sorted (map k ?R)" "filter (\<lambda>a. k a = c) ?R = rev (filter (\<lambda>a. k a = c) (drop ?h ns))"
      using 1(2) [OF False] 1(3) by (auto dest: in_set_dropD)
    have cmp: "\<And>l r. l \<in> set ?L \<Longrightarrow> r \<in> set ?R \<Longrightarrow> strcmp (k l) (k r) < 0 \<longleftrightarrow> k l < k r"
    proof -
      fix l r assume "l \<in> set ?L" "r \<in> set ?R"
      then have "l \<in> set ns" "r \<in> set ns"
        by (auto simp: set_msort_nodes dest: in_set_takeD in_set_dropD)
      then have "NUL \<notin> set (k l)" "NUL \<notin> set (k r)" using 1(3) by blast+
      then show "strcmp (k l) (k r) < 0 \<longleftrightarrow> k l < k r" by (rule strcmp_less)
    qed
    have m: "msort_nodes k ns = merge_nodes k ?L ?R"
      using False by (rule msort_nodes_big)
    have f: "filter (\<lambda>a. k a = c) (merge_nodes k ?L ?R)
        = filter (\<lambda>a. k a = c) ?R @ filter (\<lambda>a. k a = c) ?L"
      using L(1) R(1) cmp by (rule filter_merge_nodes)
    have "filter (\<lambda>a. k a = c) (msort_nodes k ns)
        = rev (filter (\<lambda>a. k a = c) (drop ?h ns)) @ rev (filter (\<lambda>a. k a = c) (take ?h ns))"
      unfolding m f L(2) R(2) ..
    also have "\<dots> = rev (filter (\<lambda>a. k a = c) (take ?h ns @ drop ?h ns))"
      by (simp only: filter_append rev_append)
    finally have "filter (\<lambda>a. k a = c) (msort_nodes k ns) = rev (filter (\<lambda>a. k a = c) ns)"
      by simp
    moreover have "sorted (map k (msort_nodes k ns))"
      unfolding m using L(1) R(1) cmp by (rule sorted_merge_nodes)
    ultimately show ?thesis by simp
  qed
qed


section \<open>The loops of the sort on the heap\<close>

lemma comparator_str_of:
  assumes "str_of st a = Some x" "str_of st b = Some y"
  shows "comparator st (Some a) (Some b) = Some (strcmp x y)"
proof -
  from assms(1) obtain ea where ea: "eles st a = Some ea" "load_str st (e_value ea) = Some x"
    by (cases "eles st a") (auto simp: str_of_def)
  from assms(2) obtain eb where eb: "eles st b = Some eb" "load_str st (e_value eb) = Some y"
    by (cases "eles st b") (auto simp: str_of_def)
  show ?thesis by (simp add: comparator_def ea eb)
qed

lemma nxt_SomeD:
  assumes "nxt st a = Some x"
  obtains e where "eles st a = Some e" "e_next e = x"
  using assms by (cases "eles st a") (auto simp: nxt_def)

lemma chain_hd: "chain st p ns \<Longrightarrow> p = (if ns = [] then None else Some (hd ns))"
  by (cases ns) (auto simp: chain_Cons_nxt)

lemma chain_nth:
  "chain st p ns \<Longrightarrow> j < length ns \<Longrightarrow>
   nxt st (ns ! j) = Some (if Suc j < length ns then Some (ns ! Suc j) else None)"
proof (induction ns arbitrary: p j)
  case Nil
  then show ?case by simp
next
  case (Cons a as)
  from Cons.prems(1) obtain n where n: "nxt st a = Some n" "chain st n as"
    by (auto simp: chain_Cons_nxt)
  show ?case
  proof (cases j)
    case 0
    with n chain_hd [OF n(2)] show ?thesis by (cases as) auto
  next
    case (Suc j')
    with Cons.prems(2) have "j' < length as" by simp
    from Cons.IH [OF n(2) this] Suc show ?thesis by simp
  qed
qed

lemma split_loop_nth:
  assumes c: "chain st p ns"
  shows "2 * i < length ns \<Longrightarrow>
     split_loop (Some (ns ! i)) (Some (ns ! (2 * i))) st
       = Some (Some (ns ! ((length ns - 1) div 2)))"
proof (induction "length ns - 2 * i" arbitrary: i rule: less_induct)
  case less
  let ?n = "length ns"
  from chain_nth [OF c less.prems] obtain f where f: "eles st (ns ! (2 * i)) = Some f"
    "e_next f = (if Suc (2 * i) < ?n then Some (ns ! Suc (2 * i)) else None)"
    by (rule nxt_SomeD)
  show ?case
  proof (cases "Suc (2 * i) < ?n")
    case False
    with less.prems have "(?n - 1) div 2 = i" by arith
    with False f show ?thesis by (subst split_loop.simps) simp
  next
    case True
    from chain_nth [OF c True] obtain f1 where f1: "eles st (ns ! Suc (2 * i)) = Some f1"
      "e_next f1 = (if Suc (Suc (2 * i)) < ?n then Some (ns ! Suc (Suc (2 * i))) else None)"
      by (rule nxt_SomeD)
    show ?thesis
    proof (cases "Suc (Suc (2 * i)) < ?n")
      case False
      with True have "(?n - 1) div 2 = i" by arith
      with False True f f1 show ?thesis by (subst split_loop.simps) simp
    next
      case T2: True
      then have i: "i < ?n" "Suc i < ?n" by arith+
      from chain_nth [OF c i(1)] i(2) obtain s where s: "eles st (ns ! i) = Some s"
        "e_next s = Some (ns ! Suc i)"
        by (auto elim: nxt_SomeD)
      have "split_loop (Some (ns ! Suc i)) (Some (ns ! (2 * Suc i))) st
          = Some (Some (ns ! ((?n - 1) div 2)))"
        using T2 by (intro less.hyps) auto
      with T2 True f f1 s show ?thesis by (subst split_loop.simps) simp
    qed
  qed
qed

lemma end_loop_last:
  "chain st (Some a) ns \<Longrightarrow> end_loop (Some a) st = Some (Some (last ns))"
proof (induction ns arbitrary: a)
  case Nil
  then show ?case by simp
next
  case (Cons b bs)
  then obtain e where e: "a = b" "eles st b = Some e" "chain st (e_next e) bs"
    by (auto simp: chain_Cons_nxt nxt_def)
  show ?case
  proof (cases bs)
    case Nil
    with e show ?thesis by (subst end_loop.simps) simp
  next
    case (Cons c cs)
    with e have n: "e_next e = Some c" by (auto simp: chain_Cons_nxt)
    with Cons.IH [of c] e have "end_loop (Some c) st = Some (Some (last bs))" by simp
    with e n Cons show ?thesis by (subst end_loop.simps) simp
  qed
qed

lemma merge_nodes_Nil2 [simp]: "merge_nodes k ls [] = ls"
  by (cases ls) simp_all

lemma merge_step:
  assumes ms: "chain st start ms" "ms \<noteq> []"
    and xs: "chain st (Some x) (x # xs)" and ys: "chain st other ys"
    and d: "x \<notin> set ms" "set ms \<inter> set xs = {}" "set ms \<inter> set ys = {}"
      "x \<notin> set ys"
  obtains e st1 st2 where "eles st x = Some e"
    "set_next (Some (last ms)) (Some x) st = Some st1" "set_next (Some x) None st1 = Some st2"
    "chain st2 start (ms @ [x])" "chain st2 (e_next e) xs" "chain st2 other ys"
    "relinked {last ms, x} st st2"
proof -
  let ?m = "last ms"
  from xs obtain e where e: "eles st x = Some e" and cx: "chain st (e_next e) xs"
    by (auto simp: chain_Cons_nxt nxt_def)
  from chain_last_nxt [OF ms] obtain em where em: "eles st ?m = Some em"
    by (rule nxt_SomeD)
  from ms(2) have mm: "?m \<in> set ms" by simp
  with d(1) have mx: "?m \<noteq> x" by auto
  let ?st1 = "st\<lparr>eles := (eles st)(?m \<mapsto> em\<lparr>e_next := Some x\<rparr>)\<rparr>"
  let ?st2 = "?st1\<lparr>eles := (eles ?st1)(x \<mapsto> e\<lparr>e_next := None\<rparr>)\<rparr>"
  have s1: "set_next (Some ?m) (Some x) st = Some ?st1" using em by (rule set_next_Some)
  have "eles ?st1 x = Some e" using e mx by simp
  then have s2: "set_next (Some x) None ?st1 = Some ?st2" by (rule set_next_Some)
  have r1: "relinked {?m} st ?st1" using em by (rule relinked_set_next)
  have r2: "relinked {x} ?st1 ?st2" using \<open>eles ?st1 x = Some e\<close> by (rule relinked_set_next)
  have r: "relinked {?m, x} st ?st2" using r1 r2 by (rule relinked_trans) auto
  from chain_distinct [OF xs] have xxs: "x \<notin> set xs" by simp
  have c1: "chain ?st2 start (ms @ [x])"
  proof (rule chain_snoc [OF ms])
    fix a assume a: "a \<in> set (butlast ms)"
    then have "a \<in> set ms" by (rule in_set_butlastD)
    with d(1) have "a \<noteq> x" by auto
    moreover have "a \<noteq> ?m"
      using a chain_distinct [OF ms(1)] ms(2)
      by (metis append_butlast_last_id distinct_append disjoint_iff list.set_intros(1))
    ultimately show "nxt ?st2 a = nxt st a" by (simp add: nxt_def)
  next
    show "nxt ?st2 ?m = Some (Some x)" using mx by (simp add: nxt_def)
  next
    show "nxt ?st2 x = Some None" by (simp add: nxt_def)
  qed
  have c2: "chain ?st2 (e_next e) xs"
    using r cx
  proof (rule relinked_chain)
    show "set xs \<inter> {?m, x} = {}" using xxs mm d(2) by auto
  qed
  have c3: "chain ?st2 other ys"
    using r ys
  proof (rule relinked_chain)
    show "set ys \<inter> {?m, x} = {}" using mm d(3,4) by auto
  qed
  from e s1 s2 c1 c2 c3 r show ?thesis by (rule that)
qed

lemma merge_loop_chain:
  assumes "length ls + length rs = n"
    and "chain st start ms" "ms \<noteq> []" "merge = Some (last ms)"
    and "chain st left ls" "chain st right rs"
    and "set ms \<inter> set ls = {}" "set ms \<inter> set rs = {}" "set ls \<inter> set rs = {}"
    and "\<And>a. a \<in> set ls \<union> set rs \<Longrightarrow> str_of st a = Some (k a)"
  shows "\<exists>st'. merge_loop comparator start merge left right st = Some (start, st') \<and>
           chain st' start (ms @ merge_nodes k ls rs) \<and>
           relinked (set ms \<union> set ls \<union> set rs) st st'"
  using assms
proof (induction n arbitrary: ls rs ms merge left right st)
  case 0
  then have "ls = []" "rs = []" by simp_all
  with 0 have "left = None" "right = None" by simp_all
  with 0 \<open>ls = []\<close> \<open>rs = []\<close> show ?case by (subst merge_loop.simps) simp
next
  case (Suc n)
  note ms = Suc.prems(2,3) and mg = Suc.prems(4)
  note cl = Suc.prems(5) and cr = Suc.prems(6)
  note d = Suc.prems(7,8,9) and so = Suc.prems(10)
  have take_l: "\<exists>st'. merge_loop comparator start merge left right st = Some (start, st') \<and>
           chain st' start (ms @ l # merge_nodes k ls' rs) \<and>
           relinked (set ms \<union> set ls \<union> set rs) st st'"
    if ls: "ls = l # ls'"
      and tk: "right = None \<or> (comparator st left right = Some c \<and> c < 0)"
    for l ls' c
  proof -
    from cl ls have l: "left = Some l" by (simp add: chain_Cons_nxt)
    from cl l ls have cl': "chain st (Some l) (l # ls')" by simp
    from d ls have dd: "l \<notin> set ms" "set ms \<inter> set ls' = {}" "l \<notin> set rs" by auto
    from ms cl' cr dd(1,2) d(2) dd(3) obtain e st1 st2 where
      e: "eles st l = Some e"
      and s: "set_next (Some (last ms)) (Some l) st = Some st1" "set_next (Some l) None st1 = Some st2"
      and c: "chain st2 start (ms @ [l])" "chain st2 (e_next e) ls'" "chain st2 right rs"
      and r: "relinked {last ms, l} st st2"
      by (rule merge_step)
    from chain_distinct [OF cl'] have lls: "l \<notin> set ls'" by simp
    have len: "length ls' + length rs = n" using Suc.prems(1) ls by simp
    have "\<exists>st'. merge_loop comparator start (Some l) (e_next e) right st2 = Some (start, st') \<and>
           chain st' start ((ms @ [l]) @ merge_nodes k ls' rs) \<and>
           relinked (set (ms @ [l]) \<union> set ls' \<union> set rs) st2 st'"
    proof (rule Suc.IH [OF len c(1) _ _ c(2) c(3)])
      show "set (ms @ [l]) \<inter> set ls' = {}" using dd(2) lls by auto
      show "set (ms @ [l]) \<inter> set rs = {}" using d(2) dd(3) by auto
      show "set ls' \<inter> set rs = {}" using d(3) ls by auto
      fix a assume "a \<in> set ls' \<union> set rs"
      then have "a \<in> set ls \<union> set rs" using ls by auto
      then show "str_of st2 a = Some (k a)" using relinked_str_of [OF r] so by simp
    qed simp_all
    then obtain st' where
      m: "merge_loop comparator start (Some l) (e_next e) right st2 = Some (start, st')"
      and ch: "chain st' start ((ms @ [l]) @ merge_nodes k ls' rs)"
      and r': "relinked (set (ms @ [l]) \<union> set ls' \<union> set rs) st2 st'" by blast
    have "merge_loop comparator start merge left right st = Some (start, st')"
    proof (cases "right = None")
      case True
      show ?thesis by (subst merge_loop.simps) (use True m in \<open>simp add: l mg e s\<close>)
    next
      case False
      then obtain r' where r': "right = Some r'" by auto
      with tk l have cm: "comparator st (Some l) (Some r') = Some c" "c < 0" by simp_all
      show ?thesis by (subst merge_loop.simps) (use m in \<open>simp add: l r' cm mg e s\<close>)
    qed
    moreover have "relinked (set ms \<union> set ls \<union> set rs) st st'"
      using r r' by (rule relinked_trans) (use ms(2) ls in auto)
    ultimately show ?thesis using ch by auto
  qed
  have take_r: "\<exists>st'. merge_loop comparator start merge left right st = Some (start, st') \<and>
           chain st' start (ms @ r # merge_nodes k ls rs') \<and>
           relinked (set ms \<union> set ls \<union> set rs) st st'"
    if rs: "rs = r # rs'"
      and tk: "left = None \<or> (comparator st left right = Some c \<and> \<not> c < 0)"
    for r rs' c
  proof -
    from cr rs have rr: "right = Some r" by (simp add: chain_Cons_nxt)
    from cr rr rs have cr': "chain st (Some r) (r # rs')" by simp
    from d rs have dd: "r \<notin> set ms" "set ms \<inter> set rs' = {}" "r \<notin> set ls" by auto
    from ms cr' cl dd(1,2) d(1) dd(3) obtain e st1 st2 where
      e: "eles st r = Some e"
      and s: "set_next (Some (last ms)) (Some r) st = Some st1" "set_next (Some r) None st1 = Some st2"
      and c: "chain st2 start (ms @ [r])" "chain st2 (e_next e) rs'" "chain st2 left ls"
      and rl: "relinked {last ms, r} st st2"
      by (rule merge_step)
    from chain_distinct [OF cr'] have rrs: "r \<notin> set rs'" by simp
    have len: "length ls + length rs' = n" using Suc.prems(1) rs by simp
    have "\<exists>st'. merge_loop comparator start (Some r) left (e_next e) st2 = Some (start, st') \<and>
           chain st' start ((ms @ [r]) @ merge_nodes k ls rs') \<and>
           relinked (set (ms @ [r]) \<union> set ls \<union> set rs') st2 st'"
    proof (rule Suc.IH [OF len c(1) _ _ c(3) c(2)])
      show "set (ms @ [r]) \<inter> set ls = {}" using d(1) dd(3) by auto
      show "set (ms @ [r]) \<inter> set rs' = {}" using dd(2) rrs by auto
      show "set ls \<inter> set rs' = {}" using d(3) rs by auto
      fix a assume "a \<in> set ls \<union> set rs'"
      then have "a \<in> set ls \<union> set rs" using rs by auto
      then show "str_of st2 a = Some (k a)" using relinked_str_of [OF rl] so by simp
    qed simp_all
    then obtain st' where
      m: "merge_loop comparator start (Some r) left (e_next e) st2 = Some (start, st')"
      and ch: "chain st' start ((ms @ [r]) @ merge_nodes k ls rs')"
      and r': "relinked (set (ms @ [r]) \<union> set ls \<union> set rs') st2 st'" by blast
    have "merge_loop comparator start merge left right st = Some (start, st')"
    proof (cases "left = None")
      case True
      show ?thesis by (subst merge_loop.simps) (use True m in \<open>simp add: rr mg e s\<close>)
    next
      case False
      then obtain l' where l': "left = Some l'" by auto
      with tk rr have cm: "comparator st (Some l') (Some r) = Some c" "\<not> c < 0" by simp_all
      show ?thesis by (subst merge_loop.simps) (use m in \<open>simp add: l' rr cm mg e s\<close>)
    qed
    moreover have "relinked (set ms \<union> set ls \<union> set rs) st st'"
      using rl r' by (rule relinked_trans) (use ms(2) rs in auto)
    ultimately show ?thesis using ch by auto
  qed
  show ?case
  proof (cases rs)
    case Nil
    with Suc.prems(1) obtain l ls' where ls: "ls = l # ls'" by (cases ls) auto
    from cr Nil have "right = None" by simp
    then show ?thesis using take_l [OF ls, of 0] Nil ls by simp
  next
    case (Cons r rs')
    with cr have rr: "right = Some r" by (simp add: chain_Cons_nxt)
    show ?thesis
    proof (cases ls)
      case Nil
      with cl have "left = None" by simp
      with rr show ?thesis using take_r [OF Cons, of 0] Nil Cons by simp
    next
      case ls: (Cons l ls')
      with cl have l: "left = Some l" by (simp add: chain_Cons_nxt)
      have cmp: "comparator st left right = Some (strcmp (k l) (k r))"
        unfolding l rr by (rule comparator_str_of) (simp_all add: so ls Cons)
      show ?thesis
      proof (cases "strcmp (k l) (k r) < 0")
        case True
        then show ?thesis using take_l [OF ls, of "strcmp (k l) (k r)"] cmp ls Cons by simp
      next
        case False
        then show ?thesis using take_r [OF Cons, of "strcmp (k l) (k r)"] cmp ls Cons by simp
      qed
    qed
  qed
qed

lemma merge_first:
  assumes xs: "chain st (Some x) (x # xs)" and ys: "chain st other ys" and d: "x \<notin> set ys"
  obtains e st2 where "eles st x = Some e" "set_next (Some x) None st = Some st2"
    "chain st2 (Some x) [x]" "chain st2 (e_next e) xs" "chain st2 other ys"
    "relinked {x} st st2"
proof -
  from xs obtain e where e: "eles st x = Some e" and cx: "chain st (e_next e) xs"
    by (auto simp: chain_Cons_nxt nxt_def)
  let ?st2 = "st\<lparr>eles := (eles st)(x \<mapsto> e\<lparr>e_next := None\<rparr>)\<rparr>"
  have s: "set_next (Some x) None st = Some ?st2" using e by (rule set_next_Some)
  have r: "relinked {x} st ?st2" using e by (rule relinked_set_next)
  from chain_distinct [OF xs] have xxs: "x \<notin> set xs" by simp
  have c1: "chain ?st2 (Some x) [x]" by (simp add: chain_Cons_nxt nxt_def)
  have c2: "chain ?st2 (e_next e) xs" using r cx by (rule relinked_chain) (use xxs in auto)
  have c3: "chain ?st2 other ys" using r ys by (rule relinked_chain) (use d in auto)
  from e s c1 c2 c3 r show ?thesis by (rule that)
qed

lemma merge_loop_init:
  assumes cl: "chain st left (l # ls)" and cr: "chain st right (r # rs)"
    and d: "set (l # ls) \<inter> set (r # rs) = {}"
    and so: "\<And>a. a \<in> set (l # ls) \<union> set (r # rs) \<Longrightarrow> str_of st a = Some (k a)"
  shows "\<exists>start' st'. merge_loop comparator start None left right st = Some (start', st') \<and>
           chain st' start' (merge_nodes k (l # ls) (r # rs)) \<and>
           relinked (set (l # ls) \<union> set (r # rs)) st st'"
proof -
  from cl have l: "left = Some l" by (simp add: chain_Cons_nxt)
  from cr have rr: "right = Some r" by (simp add: chain_Cons_nxt)
  have cmp: "comparator st (Some l) (Some r) = Some (strcmp (k l) (k r))"
    by (rule comparator_str_of) (simp_all add: so)
  show ?thesis
  proof (cases "strcmp (k l) (k r) < 0")
    case True
    from cl l have cl': "chain st (Some l) (l # ls)" by simp
    from d have "l \<notin> set (r # rs)" by auto
    with cl' cr obtain e st2 where e: "eles st l = Some e"
      and s: "set_next (Some l) None st = Some st2"
      and c: "chain st2 (Some l) [l]" "chain st2 (e_next e) ls" "chain st2 right (r # rs)"
      and rl: "relinked {l} st st2"
      by (rule merge_first)
    from chain_distinct [OF cl] have lls: "l \<notin> set ls" by simp
    have "\<exists>st'. merge_loop comparator (Some l) (Some l) (e_next e) right st2 = Some (Some l, st') \<and>
           chain st' (Some l) ([l] @ merge_nodes k ls (r # rs)) \<and>
           relinked (set [l] \<union> set ls \<union> set (r # rs)) st2 st'"
    proof (rule merge_loop_chain [OF refl c(1) _ _ c(2) c(3)])
      show "set [l] \<inter> set ls = {}" using lls by simp
      show "set [l] \<inter> set (r # rs) = {}" using d by auto
      show "set ls \<inter> set (r # rs) = {}" using d by auto
      fix a assume "a \<in> set ls \<union> set (r # rs)"
      then have "a \<in> set (l # ls) \<union> set (r # rs)" by auto
      then have "str_of st a = Some (k a)" by (rule so)
      then show "str_of st2 a = Some (k a)" by (simp add: relinked_str_of [OF rl])
    qed simp_all
    then obtain st' where
      m: "merge_loop comparator (Some l) (Some l) (e_next e) (Some r) st2 = Some (Some l, st')"
      and ch: "chain st' (Some l) ([l] @ merge_nodes k ls (r # rs))"
      and r': "relinked (set [l] \<union> set ls \<union> set (r # rs)) st2 st'"
      unfolding rr by blast
    have "merge_loop comparator start None left right st = Some (Some l, st')"
      by (subst merge_loop.simps) (simp add: l rr cmp True e s m)
    moreover have "relinked (set (l # ls) \<union> set (r # rs)) st st'"
      using rl r' by (rule relinked_trans) auto
    ultimately show ?thesis using ch True by auto
  next
    case False
    from cr rr have cr': "chain st (Some r) (r # rs)" by simp
    from d have "r \<notin> set (l # ls)" by auto
    with cr' cl obtain e st2 where e: "eles st r = Some e"
      and s: "set_next (Some r) None st = Some st2"
      and c: "chain st2 (Some r) [r]" "chain st2 (e_next e) rs" "chain st2 left (l # ls)"
      and rl: "relinked {r} st st2"
      by (rule merge_first)
    from chain_distinct [OF cr] have rrs: "r \<notin> set rs" by simp
    have "\<exists>st'. merge_loop comparator (Some r) (Some r) left (e_next e) st2 = Some (Some r, st') \<and>
           chain st' (Some r) ([r] @ merge_nodes k (l # ls) rs) \<and>
           relinked (set [r] \<union> set (l # ls) \<union> set rs) st2 st'"
    proof (rule merge_loop_chain [OF refl c(1) _ _ c(3) c(2)])
      show "set [r] \<inter> set (l # ls) = {}" using d by auto
      show "set [r] \<inter> set rs = {}" using rrs by simp
      show "set (l # ls) \<inter> set rs = {}" using d by auto
      fix a assume "a \<in> set (l # ls) \<union> set rs"
      then have "a \<in> set (l # ls) \<union> set (r # rs)" by auto
      then have "str_of st a = Some (k a)" by (rule so)
      then show "str_of st2 a = Some (k a)" by (simp add: relinked_str_of [OF rl])
    qed simp_all
    then obtain st' where
      m: "merge_loop comparator (Some r) (Some r) (Some l) (e_next e) st2 = Some (Some r, st')"
      and ch: "chain st' (Some r) ([r] @ merge_nodes k (l # ls) rs)"
      and r': "relinked (set [r] \<union> set (l # ls) \<union> set rs) st2 st'"
      unfolding l by blast
    have "merge_loop comparator start None left right st = Some (Some r, st')"
      by (subst merge_loop.simps) (simp add: l rr cmp False e s m)
    moreover have "relinked (set (l # ls) \<union> set (r # rs)) st st'"
      using rl r' by (rule relinked_trans) auto
    ultimately show ?thesis using ch False by auto
  qed
qed

lemma chain_halves:
  assumes c: "chain st p ns" and h: "0 < h" "h < length ns"
    and e: "eles st (ns ! (h - 1)) = Some e"
  shows "e_next e = Some (ns ! h)"
    and "chain (st\<lparr>eles := (eles st)(ns ! (h - 1) \<mapsto> e\<lparr>e_next := None\<rparr>)\<rparr>) p (take h ns)"
    and "chain (st\<lparr>eles := (eles st)(ns ! (h - 1) \<mapsto> e\<lparr>e_next := None\<rparr>)\<rparr>) (Some (ns ! h)) (drop h ns)"
proof -
  let ?s = "ns ! (h - 1)"
  let ?st1 = "st\<lparr>eles := (eles st)(?s \<mapsto> e\<lparr>e_next := None\<rparr>)\<rparr>"
  let ?L = "take h ns" and ?R = "drop h ns"
  have ns: "ns = ?L @ ?R" by simp
  have L: "?L \<noteq> []" using h by auto
  have "length ?L = h" using h by simp
  then have lastL: "last ?L = ?s" using L h by (simp add: last_conv_nth del: length_take)
  have dn: "distinct ns" using c by (rule chain_distinct)
  from h have "h - 1 < length ns" "Suc (h - 1) = h" by arith+
  with chain_nth [OF c this(1)] h have "nxt st ?s = Some (Some (ns ! h))" by simp
  with e show n: "e_next e = Some (ns ! h)" by (simp add: nxt_def)
  have r: "relinked {?s} st ?st1" using e by (rule relinked_set_next)
  have d: "distinct (?L @ ?R)" using dn by simp
  have sR: "?s \<notin> set ?R"
    using d lastL L by (metis distinct_append disjoint_iff last_in_set)
  have c': "chain st p (?L @ ?R)" using c by simp
  show "chain ?st1 p ?L"
  proof (rule chain_cut [OF c' L])
    fix a assume a: "a \<in> set (butlast ?L)"
    have "distinct ?L" using dn by simp
    then have "a \<noteq> last ?L"
      using a L by (metis append_butlast_last_id distinct_append disjoint_iff list.set_intros(1))
    then show "nxt ?st1 a = nxt st a" by (simp add: nxt_def lastL)
  next
    show "nxt ?st1 (last ?L) = Some None" by (simp add: nxt_def lastL)
  qed
  from chain_split [OF c' L] e n have "chain st (Some (ns ! h)) ?R"
    by (simp add: lastL nxt_def)
  with r show "chain ?st1 (Some (ns ! h)) ?R"
    by (rule relinked_chain) (use sR in auto)
qed

lemma mergesort_chain:
  assumes "chain st start ns" and "\<And>a. a \<in> set ns \<Longrightarrow> str_of st a = Some (k a)"
  shows "\<exists>start' st'. mergesort comparator start st = Some (start', st') \<and>
           chain st' start' (msort_nodes k ns) \<and> relinked (set ns) st st'"
  using assms
proof (induction ns arbitrary: start st rule: length_induct)
  case (1 ns)
  note c = "1.prems"(1) and so = "1.prems"(2)
  show ?case
  proof (cases "length ns \<le> 1")
    case True
    then consider "ns = []" | a where "ns = [a]" by (cases ns) auto
    then have "mergesort comparator start st = Some (start, st)"
    proof cases
      case 1
      with c show ?thesis by (subst mergesort.simps) simp
    next
      case 2
      with c obtain e where "start = Some a" "eles st a = Some e" "e_next e = None"
        by (auto simp: chain_Cons_nxt nxt_def)
      then show ?thesis by (subst mergesort.simps) simp
    qed
    then show ?thesis using c by (auto simp: msort_nodes_small [OF True])
  next
    case False
    let ?n = "length ns"
    define h where "h = (?n + 1) div 2"
    let ?h = h
    let ?L = "take ?h ns" and ?R = "drop ?h ns"
    from False have h: "0 < ?h" "?h < ?n" "(?n - 1) div 2 = ?h - 1"
      unfolding h_def by arith+
    from False obtain a b ns' where ns: "ns = a # b # ns'" by (cases ns; cases "tl ns") auto
    with c obtain s where st: "start = Some a" and s: "eles st a = Some s" "e_next s = Some b"
      by (auto simp: chain_Cons_nxt nxt_def)
    define sw where "sw = ns ! (h - 1)"
    have "split_loop (Some (ns ! 0)) (Some (ns ! (2 * 0))) st
        = Some (Some (ns ! ((?n - 1) div 2)))"
      using c by (rule split_loop_nth) (use False in auto)
    then have sp: "split_loop (Some a) (Some a) st = Some (Some sw)"
      using ns h(3) by (simp add: sw_def)
    have hn: "?h - 1 < ?n" using h by arith
    from chain_nth [OF c this] obtain sl where sl: "eles st sw = Some sl"
      unfolding sw_def by (rule nxt_SomeD)
    define st1 where "st1 = st\<lparr>eles := (eles st)(sw \<mapsto> sl\<lparr>e_next := None\<rparr>)\<rparr>"
    let ?st1 = st1
    note hv = chain_halves [OF c h(1,2) sl [unfolded sw_def], folded sw_def, folded st1_def]
    have s1: "set_next (Some sw) None st = Some ?st1"
      unfolding st1_def using sl by (rule set_next_Some)
    have r1: "relinked {sw} st ?st1"
      unfolding st1_def using sl by (rule relinked_set_next)
    have so1: "str_of ?st1 x = str_of st x" for x using r1 by (rule relinked_str_of)
    have dn: "distinct (?L @ ?R)" using chain_distinct [OF c] by simp
    then have disj: "set ?L \<inter> set ?R = {}" by (simp only: distinct_append)
    have sub: "set ?L \<subseteq> set ns" "set ?R \<subseteq> set ns"
      by (auto dest: in_set_takeD in_set_dropD)
    have lenL: "length ?L < ?n" and lenR: "length ?R < ?n" using h by simp_all
    have "\<exists>left' st2. mergesort comparator start ?st1 = Some (left', st2) \<and>
           chain st2 left' (msort_nodes k ?L) \<and> relinked (set ?L) ?st1 st2"
      using lenL hv(2)
    proof (rule "1.IH" [rule_format])
      fix x assume "x \<in> set ?L"
      with sub so show "str_of ?st1 x = Some (k x)" by (auto simp: so1)
    qed
    then obtain left' st2 where
      m1: "mergesort comparator start ?st1 = Some (left', st2)"
      and c2: "chain st2 left' (msort_nodes k ?L)" and r2: "relinked (set ?L) ?st1 st2"
      by blast
    have so2: "str_of st2 x = str_of st x" for x
      using relinked_str_of [OF r2] so1 by simp
    have cR: "chain st2 (Some (ns ! ?h)) ?R"
      using r2 hv(3) by (rule relinked_chain) (use disj in auto)
    have "\<exists>right' st3. mergesort comparator (Some (ns ! ?h)) st2 = Some (right', st3) \<and>
           chain st3 right' (msort_nodes k ?R) \<and> relinked (set ?R) st2 st3"
      using lenR cR
    proof (rule "1.IH" [rule_format])
      fix x assume "x \<in> set ?R"
      with sub so show "str_of st2 x = Some (k x)" by (auto simp: so2)
    qed
    then obtain right' st3 where
      m2: "mergesort comparator (Some (ns ! ?h)) st2 = Some (right', st3)"
      and c3: "chain st3 right' (msort_nodes k ?R)" and r3: "relinked (set ?R) st2 st3"
      by blast
    have so3: "str_of st3 x = str_of st x" for x
      using relinked_str_of [OF r3] so2 by simp
    have cL: "chain st3 left' (msort_nodes k ?L)"
      using r3 c2 by (rule relinked_chain) (use disj in \<open>auto simp: set_msort_nodes\<close>)
    have "length (msort_nodes k ?L) = ?h" using h by (simp add: length_msort_nodes)
    then obtain l ls where mL: "msort_nodes k ?L = l # ls"
      using h(1) by (cases "msort_nodes k ?L") auto
    have "length (msort_nodes k ?R) = ?n - ?h" by (simp add: length_msort_nodes)
    then obtain r rs where mR: "msort_nodes k ?R = r # rs"
      using h(2) by (cases "msort_nodes k ?R") auto
    have sL: "set (l # ls) = set ?L" and sR: "set (r # rs) = set ?R"
      using mL mR set_msort_nodes by metis+
    have "\<exists>start' st'. merge_loop comparator start None left' right' st3 = Some (start', st') \<and>
           chain st' start' (merge_nodes k (l # ls) (r # rs)) \<and>
           relinked (set (l # ls) \<union> set (r # rs)) st3 st'"
    proof (rule merge_loop_init)
      show "chain st3 left' (l # ls)" using cL mL by simp
      show "chain st3 right' (r # rs)" using c3 mR by simp
      show "set (l # ls) \<inter> set (r # rs) = {}" unfolding sL sR by (rule disj)
      fix x assume "x \<in> set (l # ls) \<union> set (r # rs)"
      then have "x \<in> set ns" unfolding sL sR using sub by auto
      then show "str_of st3 x = Some (k x)" using so by (simp add: so3)
    qed
    then obtain start' st' where
      m3: "merge_loop comparator start None left' right' st3 = Some (start', st')"
      and c4: "chain st' start' (merge_nodes k (l # ls) (r # rs))"
      and r4: "relinked (set (l # ls) \<union> set (r # rs)) st3 st'"
      by blast
    have "mergesort comparator start st = Some (start', st')"
      by (subst mergesort.simps)
        (use m1 m2 m3 in \<open>simp add: st s sp sl hv(1) s1\<close>)
    moreover have "chain st' start' (msort_nodes k ns)"
      using c4 unfolding msort_nodes_big [OF False] h_def [symmetric] mL mR .
    moreover have "relinked (set ns) st st'"
    proof -
      have sw: "sw \<in> set ns" unfolding sw_def using hn by (rule nth_mem)
      from r1 r2 have "relinked (set ns) st st2"
        by (rule relinked_trans) (use sub sw in auto)
      then have "relinked (set ns) st st3"
        using r3 by (rule relinked_trans) (use sub in auto)
      then show ?thesis
        using r4 by (rule relinked_trans) (use sub sL sR in auto)
    qed
    ultimately show ?thesis by blast
  qed
qed

lemma count_one_iff: "(c :: int) = int n \<Longrightarrow> c = 1 \<longleftrightarrow> n = 1"
  by simp

lemma key_str_of: "str_of st a = Some w \<Longrightarrow> key st a = w"
  by (simp add: key_def)

lemma relinked_key: "relinked S st st' \<Longrightarrow> key st' = key st"
  by (simp add: key_def fun_eq_iff relinked_str_of)

lemma queue_rep_key:
  "queue_rep q st ns \<Longrightarrow> a \<in> set ns \<Longrightarrow> str_of st a = Some (key st a)"
  by (auto simp: queue_rep_def key_def)

lemma queue_rep_key_no_NUL:
  assumes "queue_rep q st ns" "a \<in> set ns"
  shows "NUL \<notin> set (key st a)"
proof -
  from assms obtain b where "str_of st a = Some (c_str b)" by (rule queue_rep_node)
  then show ?thesis by (simp add: key_def c_str_no_NUL)
qed

lemma q_sort_rep:
  assumes r: "queue_rep q st ns"
  shows "\<exists>q' st'. q_sort (Some q) st = Some (Some q', st') \<and>
           queue_rep q' st' (msort_nodes (key st) ns) \<and> relinked (set ns) st st' \<and>
           count_q q' = count_q q"
proof -
  from r have c: "chain st (head q) ns" and cnt: "count_q q = int (length ns)"
    and l: "last_element q = (if ns = [] then None else Some (last ns))"
    by (simp_all add: queue_rep_def)
  have h0: "head q = None \<longleftrightarrow> ns = []" using c by (rule chain_head_None)
  have c1: "count_q q = 1 \<longleftrightarrow> length ns = 1" using cnt by (rule count_one_iff)
  show ?thesis
  proof (cases "length ns \<le> 1")
    case True
    then have "ns = [] \<or> length ns = 1" by (cases ns) auto
    with h0 c1 have "q_sort (Some q) st = Some (Some q, st)"
      by (auto simp: q_sort_def)
    with r show ?thesis by (auto simp: msort_nodes_small [OF True])
  next
    case False
    let ?ms = "msort_nodes (key st) ns"
    from mergesort_chain [OF c queue_rep_key [OF r]] obtain h st' where
      m: "mergesort comparator (head q) st = Some (h, st')"
      and ch: "chain st' h ?ms" and rl: "relinked (set ns) st st'"
      by blast
    have len: "length ?ms = length ns" by (rule length_msort_nodes)
    with False have ne: "?ms \<noteq> []" by auto
    with ch obtain a where h: "h = Some a" by (cases ?ms) (auto simp: chain_Cons_nxt)
    from ch h have e: "end_loop (Some a) st' = Some (Some (last ?ms))"
      by (intro end_loop_last) simp
    let ?q = "q\<lparr>head := h, last_element := Some (last ?ms)\<rparr>"
    have "q_sort (Some q) st = Some (Some ?q, st')"
      using False h0 c1 by (auto simp: q_sort_def m h e)
    moreover have "queue_rep ?q st' ?ms"
      using r rl
    proof (rule queue_rep_relinked)
      show "chain st' (head ?q) ?ms" using ch by simp
      show "set ?ms = set ns" by (rule set_msort_nodes)
      show "last_element ?q = (if ?ms = [] then None else Some (last ?ms))" using ne by simp
    qed (simp_all add: len)
    ultimately show ?thesis using rl by auto
  qed
qed


section \<open>Order of equal strings\<close>

lemma strcmp_swap: "strcmp b a = - strcmp a b"
  by (induction a b rule: strcmp.induct) simp_all

lemma strcmp_le: "NUL \<notin> set a \<Longrightarrow> NUL \<notin> set b \<Longrightarrow> strcmp a b \<le> 0 \<longleftrightarrow> a \<le> b"
proof -
  assume a: "NUL \<notin> set a" and b: "NUL \<notin> set b"
  have "strcmp a b \<le> 0 \<longleftrightarrow> \<not> strcmp b a < 0" using strcmp_swap [of b a] by arith
  also have "\<dots> \<longleftrightarrow> \<not> b < a" using strcmp_less [OF b a] by simp
  finally show ?thesis by auto
qed

lemma precedes_Cons:
  "precedes a b (x # xs) \<longleftrightarrow> (if x = a then b \<in> set xs else precedes a b xs)"
  by (auto simp: precedes_def)

lemma precedes_filter:
  "precedes a b (filter P xs) \<longleftrightarrow> precedes a b xs \<and> P a \<and> P b"
proof (induction xs)
  case Nil
  then show ?case by (simp add: precedes_def)
next
  case (Cons x xs)
  then show ?case by (auto simp: precedes_Cons)
qed

lemma precedes_decomp:
  assumes "distinct xs"
  shows "precedes a b xs \<longleftrightarrow> (\<exists>us vs ws. xs = us @ a # vs @ b # ws)"
  using assms
proof (induction xs)
  case Nil
  then show ?case by (simp add: precedes_def)
next
  case (Cons x xs)
  show ?case
  proof (cases "x = a")
    case True
    have "b \<in> set xs \<longleftrightarrow> (\<exists>vs ws. xs = vs @ b # ws)" by (auto simp: in_set_conv_decomp)
    moreover have "(\<exists>us vs ws. a # xs = us @ a # vs @ b # ws) \<longleftrightarrow> (\<exists>vs ws. xs = vs @ b # ws)"
    proof
      assume "\<exists>us vs ws. a # xs = us @ a # vs @ b # ws"
      then obtain us vs ws where e: "a # xs = us @ a # vs @ b # ws" by blast
      have "us = []"
      proof (cases us)
        case (Cons u us')
        with e have "xs = us' @ a # vs @ b # ws" by simp
        with Cons.prems True show ?thesis by auto
      qed simp
      with e show "\<exists>vs ws. xs = vs @ b # ws" by auto
    next
      assume "\<exists>vs ws. xs = vs @ b # ws"
      then obtain vs ws where "xs = vs @ b # ws" by blast
      then have "a # xs = [] @ a # vs @ b # ws" by simp
      then show "\<exists>us vs ws. a # xs = us @ a # vs @ b # ws" by blast
    qed
    ultimately show ?thesis using True by (simp add: precedes_Cons)
  next
    case False
    have "(\<exists>us vs ws. x # xs = us @ a # vs @ b # ws) \<longleftrightarrow> (\<exists>us vs ws. xs = us @ a # vs @ b # ws)"
    proof
      assume "\<exists>us vs ws. x # xs = us @ a # vs @ b # ws"
      then obtain us vs ws where e: "x # xs = us @ a # vs @ b # ws" by blast
      with False obtain us' where "us = x # us'" by (cases us) auto
      with e show "\<exists>us vs ws. xs = us @ a # vs @ b # ws" by auto
    next
      assume "\<exists>us vs ws. xs = us @ a # vs @ b # ws"
      then obtain us vs ws where "xs = us @ a # vs @ b # ws" by blast
      then have "x # xs = (x # us) @ a # vs @ b # ws" by simp
      then show "\<exists>us vs ws. x # xs = us @ a # vs @ b # ws" by blast
    qed
    with Cons False show ?thesis by (simp add: precedes_Cons)
  qed
qed

lemma precedes_rev:
  assumes "distinct xs"
  shows "precedes a b (rev xs) \<longleftrightarrow> precedes b a xs"
proof -
  have 1: "(\<exists>us vs ws. rev xs = us @ a # vs @ b # ws) \<longleftrightarrow> (\<exists>us vs ws. xs = us @ b # vs @ a # ws)"
  proof
    assume "\<exists>us vs ws. rev xs = us @ a # vs @ b # ws"
    then obtain us vs ws where "rev xs = us @ a # vs @ b # ws" by blast
    then have "rev (rev xs) = rev (us @ a # vs @ b # ws)" by simp
    then have "xs = rev ws @ b # rev vs @ a # rev us" by simp
    then show "\<exists>us vs ws. xs = us @ b # vs @ a # ws" by blast
  next
    assume "\<exists>us vs ws. xs = us @ b # vs @ a # ws"
    then obtain us vs ws where "xs = us @ b # vs @ a # ws" by blast
    then have "rev xs = rev ws @ a # rev vs @ b # rev us" by simp
    then show "\<exists>us vs ws. rev xs = us @ a # vs @ b # ws" by blast
  qed
  from assms have "distinct (rev xs)" by simp
  then show ?thesis using assms 1 by (simp add: precedes_decomp)
qed

lemma msort_nodes_precedes:
  assumes d: "distinct ns" and n: "\<And>a. a \<in> set ns \<Longrightarrow> NUL \<notin> set (k a)"
    and p: "precedes a b ns" and e: "k a = k b"
  shows "precedes b a (msort_nodes k ns)"
proof -
  let ?P = "\<lambda>x. k x = k a"
  from p have "precedes a b (filter ?P ns)" using e by (simp add: precedes_filter)
  moreover have "distinct (filter ?P ns)" using d by simp
  ultimately have "precedes b a (rev (filter ?P ns))" by (simp add: precedes_rev)
  moreover have "filter ?P (msort_nodes k ns) = rev (filter ?P ns)"
    using msort_nodes_props [where ns = ns and k = k and c = "k a"] n by blast
  ultimately have "precedes b a (filter ?P (msort_nodes k ns))" by simp
  then show ?thesis by (simp add: precedes_filter)
qed


section \<open>The operations on well-formed queues\<close>

lemma queue_rep_head:
  assumes "queue_rep q st (h # ns)"
  obtains e vp b where "head q = Some h" "eles st h = Some e" "e_value e = Some vp"
    "strs st vp = Some b" "NUL \<in> set b" "length (c_str b) < 2 ^ 31" "key st h = c_str b"
proof -
  have "h \<in> set (h # ns)" by simp
  with assms obtain e vp b where e: "eles st h = Some e" "e_value e = Some vp"
    "strs st vp = Some b" "NUL \<in> set b" "length (c_str b) < 2 ^ 31"
    "str_of st h = Some (c_str b)"
    by (rule queue_rep_node)
  from assms have "head q = Some h" by (simp add: queue_rep_def chain_Cons_nxt)
  moreover from e(6) have "key st h = c_str b" by (rule key_str_of)
  ultimately show ?thesis using e that by blast
qed

lemma q_remove_head_rep:
  assumes r: "queue_rep q st (h # ns)"
  shows "\<exists>q' st'. q_remove_head (Some q) sp bufsize st =
           Some (True, Some q',
             (if sp then Some (take (min (length (key st h)) (unat (bufsize - 1))) (key st h) @ [NUL])
              else None), st') \<and>
         queue_rep q' st' ns \<and> (\<forall>a\<in>set ns. str_of st' a = str_of st a) \<and>
         count_q q' = count_q q - 1"
proof -
  from r obtain e vp b where h: "head q = Some h" and e: "eles st h = Some e"
    and vp: "e_value e = Some vp" and b: "strs st vp = Some b" and nul: "NUL \<in> set b"
    and len: "length (c_str b) < 2 ^ 31" and k: "key st h = c_str b"
    by (rule queue_rep_head)
  let ?q = "q\<lparr>head := e_next e, count_q := count_q q - 1,
              last_element := (if e_next e = None then None else last_element q)\<rparr>"
  let ?st = "st\<lparr>strs := (strs st)(vp := None), eles := (eles st)(h := None)\<rparr>"
  have "q_remove_head (Some q) sp bufsize st =
      Some (True, Some ?q,
        (if sp then Some (take (min (length (key st h)) (unat (bufsize - 1))) (key st h) @ [NUL])
         else None), ?st)"
    unfolding k using h e vp b nul len by (rule q_remove_head_success)
  moreover have "queue_rep ?q ?st ns" "\<forall>a\<in>set ns. str_of ?st a = str_of st a"
    using r e vp by (rule queue_rep_remove_head [OF _ _ _ refl])+
  ultimately show ?thesis by auto
qed

lemma allocated_new_mem:
  "allocated (new_mem st n v s nx) x \<longleftrightarrow> allocated st x \<or> x = n \<or> x = v"
  by (auto simp: allocated_def new_mem_def)

lemma q_insert_head_rep:
  assumes r: "queue_rep q st ns" and n: "\<not> allocated st n" and v: "\<not> allocated st v"
    and nv: "n \<noteq> v" and s: "length (c_str s) < 2 ^ 31 - 1"
  shows "\<exists>q' st'. q_insert_head (Some q) s (Some n) (Some v) st = Some (True, Some q', st') \<and>
           queue_rep q' st' (n # ns) \<and> str_of st' n = Some (c_str s) \<and>
           (\<forall>a\<in>set ns. str_of st' a = str_of st a) \<and>
           (\<forall>x. allocated st' x \<longleftrightarrow> allocated st x \<or> x = n \<or> x = v)"
proof -
  let ?st = "new_mem st n v s (head q)"
  note q_insert_head_success [OF n v nv s, of q]
  moreover note queue_rep_insert_head [OF r n v s]
  moreover have "str_of ?st n = Some (c_str s)" by (rule new_mem_node)
  moreover have "\<forall>a\<in>set ns. str_of ?st a = str_of st a"
    using new_mem_frame(3) [OF r n v] by blast
  ultimately show ?thesis using allocated_new_mem by blast
qed

lemma q_insert_tail_rep:
  assumes r: "queue_rep q st ns" and n: "\<not> allocated st n" and v: "\<not> allocated st v"
    and nv: "n \<noteq> v" and s: "length (c_str s) < 2 ^ 31 - 1"
  shows "\<exists>q' st'. q_insert_tail (Some q) s (Some n) (Some v) st = Some (True, Some q', st') \<and>
           queue_rep q' st' (ns @ [n]) \<and> str_of st' n = Some (c_str s) \<and>
           (\<forall>a\<in>set ns. str_of st' a = str_of st a) \<and>
           (\<forall>x. allocated st' x \<longleftrightarrow> allocated st x \<or> x = n \<or> x = v)"
proof -
  let ?nm = "new_mem st n v s None"
  let ?q = "q\<lparr>head := (if last_element q = None then Some n else head q),
        last_element := Some n, count_q := count_q q + 1\<rparr>"
  from r have l: "last_element q = (if ns = [] then None else Some (last ns))"
    by (simp add: queue_rep_def)
  show ?thesis
  proof (cases "ns = []")
    case True
    with l have t: "last_element q = None" by simp
    have st': "?nm = (case last_element q of None \<Rightarrow> ?nm
        | Some t \<Rightarrow> ?nm\<lparr>eles := (eles ?nm)(t \<mapsto> (the (eles st t))\<lparr>e_next := Some n\<rparr>)\<rparr>)"
      by (simp add: t)
    have "q_insert_tail (Some q) s (Some n) (Some v) st = Some (True, Some ?q, ?nm)"
      using q_insert_tail_success_empty [OF n v nv s t] t by simp
    moreover note queue_rep_insert_tail [OF r n v s st']
    ultimately show ?thesis using allocated_new_mem by blast
  next
    case False
    with l have t: "last_element q = Some (last ns)" by simp
    from r False obtain e where e: "eles st (last ns) = Some e"
      by (auto elim: queue_rep_node [of q st ns "last ns"])
    let ?st = "?nm\<lparr>eles := (eles ?nm)(last ns \<mapsto> e\<lparr>e_next := Some n\<rparr>)\<rparr>"
    have st': "?st = (case last_element q of None \<Rightarrow> ?nm
        | Some t \<Rightarrow> ?nm\<lparr>eles := (eles ?nm)(t \<mapsto> (the (eles st t))\<lparr>e_next := Some n\<rparr>)\<rparr>)"
      by (simp add: t e)
    have "q_insert_tail (Some q) s (Some n) (Some v) st = Some (True, Some ?q, ?st)"
      using q_insert_tail_success [OF n v nv s t e] t by simp
    moreover note queue_rep_insert_tail [OF r n v s st']
    moreover have "allocated ?st x \<longleftrightarrow> allocated st x \<or> x = n \<or> x = v" for x
      using e by (auto simp: allocated_def new_mem_def)
    ultimately show ?thesis by blast
  qed
qed


section \<open>The claims of the specification\<close>

subsection \<open>Example queues\<close>

lemma ex_queue_rep: "queue_rep ex_queue ex_mem [0, 1, 2]"
  by (simp add: queue_rep_def ex_queue_def ex_mem_def chain_Cons_nxt nxt_def str_of_def
        load_str_def c_str_def val_def)

lemma eq_queue_rep: "queue_rep eq_queue eq_mem [0, 2]"
  by (simp add: queue_rep_def eq_queue_def eq_mem_def chain_Cons_nxt nxt_def str_of_def
        load_str_def c_str_def val_def)

lemma one_queue_rep: "queue_rep one_queue one_mem [0]"
  by (simp add: queue_rep_def one_queue_def one_mem_def chain_Cons_nxt nxt_def str_of_def
        load_str_def c_str_def val_def)

lemma queue0_rep: "queue_rep queue0 mem0 []"
  by (simp add: queue_rep_def queue0_def mem0_def)

lemma ex_values: "q_values ex_queue ex_mem = Some [''banana'', ''apple'', ''cherry'']"
  unfolding queue_rep_values [OF ex_queue_rep]
  by (simp add: ex_mem_def str_of_def load_str_def c_str_def)

subsection \<open>Failed allocations\<close>

text \<open>
  Claim C4. When the first or the second call of \<^verbatim>\<open>malloc\<close> inside \<^verbatim>\<open>q_insert_head\<close> or
  \<^verbatim>\<open>q_insert_tail\<close> returns \<^verbatim>\<open>NULL\<close>, the call returns false, and the queue and the whole
  memory are what they were before the call: the node allocated by the first call has
  been freed again, no link, counter or string has changed. This holds for every queue
  and every memory, well-formed or not.
\<close>

theorem insert_alloc_failure_rollback:
  assumes "fst (malloc_ele r1 st) = None \<or>
     fst (malloc_str r2 (scast ((ucast (strlen s) :: c_int) + 1)) (snd (malloc_ele r1 st))) = None"
  shows "q_insert_head (Some q) s r1 r2 st = Some (False, Some q, st) \<and>
         q_insert_tail (Some q) s r1 r2 st = Some (False, Some q, st)"
  using assms q_insert_head_fail1 q_insert_head_fail2 q_insert_tail_fail1 q_insert_tail_fail2
  by blast

theorem insert_alloc_failure_rollback_witness:
  "fst (malloc_ele (Some 7) ex_mem) = Some 7 \<and>
   fst (malloc_str None (scast ((ucast (strlen ''kiwi'') :: c_int) + 1))
          (snd (malloc_ele (Some 7) ex_mem))) = None \<and>
   q_insert_head (Some ex_queue) ''kiwi'' (Some 7) None ex_mem = Some (False, Some ex_queue, ex_mem) \<and>
   q_insert_tail (Some ex_queue) ''kiwi'' (Some 7) None ex_mem = Some (False, Some ex_queue, ex_mem) \<and>
   q_insert_head (Some ex_queue) ''kiwi'' None (Some 8) ex_mem = Some (False, Some ex_queue, ex_mem) \<and>
   q_insert_tail (Some ex_queue) ''kiwi'' None (Some 8) ex_mem = Some (False, Some ex_queue, ex_mem)"
proof -
  have 1: "fst (malloc_ele (Some 7) ex_mem) = Some 7"
    by (simp add: malloc_ele_def allocated_def ex_mem_def)
  have 2: "fst (malloc_str None (scast ((ucast (strlen ''kiwi'') :: c_int) + 1))
          (snd (malloc_ele (Some 7) ex_mem))) = None"
    by (simp add: malloc_str_def)
  have 3: "fst (malloc_ele None ex_mem) = None" by (simp add: malloc_ele_def)
  from insert_alloc_failure_rollback [of "Some 7" ex_mem None "''kiwi''" ex_queue] 2
    insert_alloc_failure_rollback [of None ex_mem "Some 8" "''kiwi''" ex_queue] 3 1
  show ?thesis by simp
qed

subsection \<open>Removal from an absent or empty queue\<close>

text \<open>
  Claim C8. \<^verbatim>\<open>q_remove_head\<close> on a null handle or on a queue whose \<^verbatim>\<open>head\<close> is null
  returns false; the queue (head, tail and count) and the memory are unchanged and
  nothing is written through the buffer pointer. A queue that satisfies the
  representation invariant and has count 0 is such a queue, and its size stays 0.
\<close>

theorem remove_head_empty_no_mutation:
  "q_remove_head None sp bufsize st = Some (False, None, None, st) \<and>
   (head q = None \<longrightarrow> q_remove_head (Some q) sp bufsize st = Some (False, Some q, None, st)) \<and>
   (rep_inv q st \<and> count_q q = 0 \<longrightarrow>
      q_remove_head (Some q) sp bufsize st = Some (False, Some q, None, st) \<and>
      q_size (Some q) = 0)"
proof -
  have "head q = None" if "rep_inv q st" "count_q q = 0"
    using that by (auto simp: rep_inv_def split: option.splits)
  then show ?thesis by (auto simp: q_remove_head_fail q_size_def)
qed

theorem remove_head_empty_no_mutation_witness:
  "head queue0 = None \<and> rep_inv queue0 mem0 \<and> count_q queue0 = 0 \<and>
   q_remove_head (Some queue0) True 8 mem0 = Some (False, Some queue0, None, mem0) \<and>
   q_size (Some queue0) = 0 \<and>
   q_remove_head None True 8 mem0 = Some (False, None, None, mem0)"
proof -
  have "rep_inv queue0 mem0" using queue_rep_valid [OF queue0_rep] by simp
  moreover have "head queue0 = None" "count_q queue0 = 0"
    by (simp_all add: queue0_def)
  ultimately show ?thesis
    using remove_head_empty_no_mutation [of True 8 mem0 queue0] by simp
qed

subsection \<open>Removal into a buffer\<close>

lemma valid_values_head:
  assumes "rep_inv q st" "owns q st" "q_values q st = Some (v # vs)"
  obtains h ns where "queue_rep q st (h # ns)" "key st h = v" "length v < 2 ^ 31"
proof -
  from assms(1,2) obtain ms where r: "queue_rep q st ms" by (auto dest: valid_queue_rep)
  from queue_rep_values [OF r] assms(3) have m: "map (\<lambda>a. the (str_of st a)) ms = v # vs" by simp
  then obtain h ns where ms: "ms = h # ns" by (cases ms) auto
  with m have v: "the (str_of st h) = v" by simp
  from r ms obtain w where w: "str_of st h = Some w" "length w < 2 ^ 31"
    by (auto simp: queue_rep_def)
  with v have "key st h = v" "length v < 2 ^ 31" by (simp_all add: key_def)
  with r ms show ?thesis using that by blast
qed

lemma unat_minus_one_max [simp]: "unat (- 1 :: size_t) = 2 ^ 64 - 1"
  by (simp add: unsigned_minus_1_eq_mask mask_eq_exp_minus_1)

text \<open>
  Claim C10. On a non-empty queue, with a non-null buffer and \<^verbatim>\<open>bufsize\<close> 0, the unsigned
  \<^verbatim>\<open>bufsize - 1\<close> is the largest \<^verbatim>\<open>size_t\<close>, so the length of the stored string is the smaller
  operand and \<^verbatim>\<open>q_remove_head\<close> writes the whole string and a terminator: one byte more
  than the length of the string, which is more than the capacity 0. The queue is one
  that satisfies the representation invariant and owns its strings (each shorter than
  \<open>2^31\<close> bytes, as every string stored by an insertion is).
\<close>

theorem remove_head_capacity_zero_overrun:
  assumes "rep_inv q st" "owns q st" "q_values q st = Some (v # vs)"
  shows "unat ((0 :: size_t) - 1) = 2 ^ 64 - 1 \<and>
         (\<exists>q' st'. q_remove_head (Some q) True 0 st = Some (True, Some q', Some (v @ [NUL]), st')) \<and>
         length (v @ [NUL]) = length v + 1 \<and> unat (0 :: size_t) < length (v @ [NUL])"
proof -
  from assms obtain h ns where r: "queue_rep q st (h # ns)" and k: "key st h = v"
    and len: "length v < 2 ^ 31" by (rule valid_values_head)
  have "min (length v) (unat ((0 :: size_t) - 1)) = length v"
    using len by simp
  with q_remove_head_rep [OF r, of True 0] k show ?thesis by auto
qed

theorem remove_head_capacity_zero_overrun_witness:
  "rep_inv ex_queue ex_mem \<and> owns ex_queue ex_mem \<and>
   q_values ex_queue ex_mem = Some [''banana'', ''apple'', ''cherry''] \<and>
   removed (q_remove_head (Some ex_queue) True 0 ex_mem) = Some (True, Some (''banana'' @ [NUL])) \<and>
   unat (0 :: size_t) < length (''banana'' @ [NUL])"
proof -
  note v = queue_rep_valid [OF ex_queue_rep]
  from remove_head_capacity_zero_overrun [OF v [THEN conjunct1] v [THEN conjunct2] ex_values]
  have "removed (q_remove_head (Some ex_queue) True 0 ex_mem) = Some (True, Some (''banana'' @ [NUL]))"
    by (auto simp: removed_def)
  with v ex_values show ?thesis by simp
qed

text \<open>
  Claim C5, as amended: for a buffer of at least one byte. With a non-null buffer whose
  capacity is at least 1 and at most the length of the stored string, a removal succeeds
  and writes the first \<open>capacity - 1\<close> bytes of the string, which is
  \<open>min (length, capacity - 1)\<close> bytes, and a terminator: exactly \<open>capacity\<close> bytes, none
  past the buffer. (Capacity 0 is the case of claim C10.)
\<close>

theorem remove_head_truncates:
  assumes "rep_inv q st" "owns q st" "q_values q st = Some (v # vs)"
    and "0 < unat bufsize" "unat bufsize < length v + 1"
  shows "(\<exists>q' st'. q_remove_head (Some q) True bufsize st =
            Some (True, Some q', Some (take (min (length v) (unat bufsize - 1)) v @ [NUL]), st')) \<and>
         min (length v) (unat bufsize - 1) = unat bufsize - 1 \<and>
         length (take (min (length v) (unat bufsize - 1)) v @ [NUL]) = unat bufsize"
proof -
  from assms(1,2,3) obtain h ns where r: "queue_rep q st (h # ns)" and k: "key st h = v"
    by (rule valid_values_head)
  from assms(4) have "bufsize \<noteq> 0" by auto
  then have "unat (bufsize - 1) = unat bufsize - 1" by (rule unat_minus_one)
  with q_remove_head_rep [OF r, of True bufsize] k assms(4,5) show ?thesis by auto
qed

theorem remove_head_truncates_witness:
  "rep_inv ex_queue ex_mem \<and> owns ex_queue ex_mem \<and>
   q_values ex_queue ex_mem = Some [''banana'', ''apple'', ''cherry''] \<and>
   0 < unat (4 :: size_t) \<and> unat (4 :: size_t) < length ''banana'' + 1 \<and>
   removed (q_remove_head (Some ex_queue) True 4 ex_mem) = Some (True, Some (''ban'' @ [NUL]))"
proof -
  note v = queue_rep_valid [OF ex_queue_rep]
  have b: "0 < unat (4 :: size_t)" "unat (4 :: size_t) < length ''banana'' + 1" by simp_all
  from remove_head_truncates [OF v [THEN conjunct1] v [THEN conjunct2] ex_values b]
  have "removed (q_remove_head (Some ex_queue) True 4 ex_mem) = Some (True, Some (''ban'' @ [NUL]))"
    by (auto simp: removed_def)
  with v ex_values show ?thesis by simp
qed

text \<open>
  Claim C5 as stated fails at capacity 0, which is smaller than the stored string plus
  its terminator: the removal of banana writes seven bytes into a buffer of capacity 0.
\<close>

theorem remove_head_truncates_counterexample:
  "rep_inv ex_queue ex_mem \<and> owns ex_queue ex_mem \<and>
   q_values ex_queue ex_mem = Some [''banana'', ''apple'', ''cherry''] \<and>
   unat (0 :: size_t) < length ''banana'' + 1 \<and>
   removed (q_remove_head (Some ex_queue) True 0 ex_mem) = Some (True, Some (''banana'' @ [NUL])) \<and>
   \<not> length (''banana'' @ [NUL]) \<le> unat (0 :: size_t) \<and>
   ''banana'' @ [NUL] \<noteq> take (min (length ''banana'') (unat (0 :: size_t) - 1)) ''banana'' @ [NUL]"
proof -
  note v = queue_rep_valid [OF ex_queue_rep]
  have k: "key ex_mem 0 = ''banana''"
    by (simp add: key_def str_of_def load_str_def c_str_def ex_mem_def)
  from q_remove_head_rep [OF ex_queue_rep, of True 0]
  have "removed (q_remove_head (Some ex_queue) True 0 ex_mem)
      = Some (True, Some (''banana'' @ [NUL]))"
    unfolding k by (auto simp: removed_def)
  with v ex_values show ?thesis by simp
qed

subsection \<open>The representation invariant\<close>

lemma q_insert_head_valid:
  assumes r: "queue_rep q st ns" and s: "length (c_str s) < 2 ^ 31 - 1"
  shows "\<exists>b q' st' ns'. q_insert_head (Some q) s r1 r2 st = Some (b, Some q', st') \<and>
           queue_rep q' st' ns'"
proof (cases r1 st rule: malloc_ele_cases)
  case 1
  then have "q_insert_head (Some q) s r1 r2 st = Some (False, Some q, st)"
    by (simp add: q_insert_head_fail1)
  with r show ?thesis by blast
next
  case (2 n)
  let ?st1 = "st\<lparr>eles := (eles st)(n \<mapsto> \<lparr>e_value = None, e_next = None\<rparr>)\<rparr>"
  let ?k = "scast ((ucast (strlen s) :: c_int) + 1) :: size_t"
  show ?thesis
  proof (cases r2 ?k ?st1 rule: malloc_str_cases)
    case 1
    with 2 have "q_insert_head (Some q) s r1 r2 st = Some (False, Some q, st)"
      by (intro q_insert_head_fail2) simp
    with r show ?thesis by blast
  next
    case (2 v)
    from 2(2) have v: "\<not> allocated st v" and nv: "n \<noteq> v"
      by (auto simp: allocated_def split: if_splits)
    from q_insert_head_rep [OF r \<open>\<not> allocated st n\<close> v nv s] \<open>r1 = Some n\<close> 2(1)
    show ?thesis by blast
  qed
qed

lemma q_insert_tail_valid:
  assumes r: "queue_rep q st ns" and s: "length (c_str s) < 2 ^ 31 - 1"
  shows "\<exists>b q' st' ns'. q_insert_tail (Some q) s r1 r2 st = Some (b, Some q', st') \<and>
           queue_rep q' st' ns'"
proof (cases r1 st rule: malloc_ele_cases)
  case 1
  then have "q_insert_tail (Some q) s r1 r2 st = Some (False, Some q, st)"
    by (simp add: q_insert_tail_fail1)
  with r show ?thesis by blast
next
  case (2 n)
  let ?st1 = "st\<lparr>eles := (eles st)(n \<mapsto> \<lparr>e_value = None, e_next = None\<rparr>)\<rparr>"
  let ?k = "scast ((ucast (strlen s) :: c_int) + 1) :: size_t"
  show ?thesis
  proof (cases r2 ?k ?st1 rule: malloc_str_cases)
    case 1
    with 2 have "q_insert_tail (Some q) s r1 r2 st = Some (False, Some q, st)"
      by (intro q_insert_tail_fail2) simp
    with r show ?thesis by blast
  next
    case (2 v)
    from 2(2) have v: "\<not> allocated st v" and nv: "n \<noteq> v"
      by (auto simp: allocated_def split: if_splits)
    from q_insert_tail_rep [OF r \<open>\<not> allocated st n\<close> v nv s] \<open>r1 = Some n\<close> 2(1)
    show ?thesis by blast
  qed
qed

lemma q_remove_head_valid:
  assumes r: "queue_rep q st ns"
  shows "\<exists>b q' w st' ns'. q_remove_head (Some q) sp bufsize st = Some (b, Some q', w, st') \<and>
           queue_rep q' st' ns'"
proof (cases ns)
  case Nil
  with r have "head q = None" by (simp add: queue_rep_def)
  then have "q_remove_head (Some q) sp bufsize st = Some (False, Some q, None, st)"
    by (rule q_remove_head_fail)
  with r show ?thesis by blast
next
  case (Cons h ns')
  from q_remove_head_rep [OF r [unfolded Cons], of sp bufsize] show ?thesis by blast
qed

text \<open>
  Preservation of the representation invariant where the length of an inserted string
  fits the \<^verbatim>\<open>int\<close> that holds it. A queue that satisfies the invariant (\<^verbatim>\<open>head\<close> is null iff
  the tail pointer is null iff the count is 0; the tail pointer is the last node of the
  chain and its \<^verbatim>\<open>next\<close> is null; the chain from \<^verbatim>\<open>head\<close> ends after exactly \<^verbatim>\<open>count\<close> nodes;
  no node occurs twice) and owns its strings still does so after \<^verbatim>\<open>q_insert_head\<close>,
  \<^verbatim>\<open>q_insert_tail\<close>, \<^verbatim>\<open>q_remove_head\<close>, \<^verbatim>\<open>q_reverse\<close> and \<^verbatim>\<open>q_sort\<close>, whatever the allocator
  does, and each of these calls returns; \<^verbatim>\<open>q_size\<close> returns the number of nodes (as an
  \<^verbatim>\<open>int\<close>) and changes nothing. For the two insertions this is shown for strings shorter
  than \<open>2^31 - 1\<close> bytes.
\<close>

lemma rep_inv_preserved:
  assumes "rep_inv q st" "owns q st"
  shows "(length (c_str s) < 2 ^ 31 - 1 \<longrightarrow>
            (\<exists>b q' st'. q_insert_head (Some q) s r1 r2 st = Some (b, Some q', st') \<and>
               rep_inv q' st' \<and> owns q' st') \<and>
            (\<exists>b q' st'. q_insert_tail (Some q) s r1 r2 st = Some (b, Some q', st') \<and>
               rep_inv q' st' \<and> owns q' st')) \<and>
         (\<exists>b q' w st'. q_remove_head (Some q) sp bufsize st = Some (b, Some q', w, st') \<and>
            rep_inv q' st' \<and> owns q' st') \<and>
         (\<exists>q' st'. q_reverse (Some q) st = Some (Some q', st') \<and>
            rep_inv q' st' \<and> owns q' st') \<and>
         (\<exists>q' st'. q_sort (Some q) st = Some (Some q', st') \<and>
            rep_inv q' st' \<and> owns q' st') \<and>
         (\<exists>ns. q_nodes q st = Some ns \<and> q_size (Some q) = word_of_nat (length ns))"
proof -
  from assms obtain ns where r: "queue_rep q st ns" by (auto dest: valid_queue_rep)
  then have cnt: "count_q q = int (length ns)" by (simp add: queue_rep_def)
  have ins: "(\<exists>b q' st'. q_insert_head (Some q) s r1 r2 st = Some (b, Some q', st') \<and>
               rep_inv q' st' \<and> owns q' st') \<and>
            (\<exists>b q' st'. q_insert_tail (Some q) s r1 r2 st = Some (b, Some q', st') \<and>
               rep_inv q' st' \<and> owns q' st')"
    if s: "length (c_str s) < 2 ^ 31 - 1"
  proof -
    from q_insert_head_valid [OF r s, of r1 r2] q_insert_tail_valid [OF r s, of r1 r2]
    show ?thesis by (meson queue_rep_valid)
  qed
  have rem: "\<exists>b q' w st'. q_remove_head (Some q) sp bufsize st = Some (b, Some q', w, st') \<and>
            rep_inv q' st' \<and> owns q' st'"
    using q_remove_head_valid [OF r, of sp bufsize] by (meson queue_rep_valid)
  have rev: "\<exists>q' st'. q_reverse (Some q) st = Some (Some q', st') \<and>
            rep_inv q' st' \<and> owns q' st'"
    using q_reverse_rep [OF r] by (meson queue_rep_valid)
  have srt: "\<exists>q' st'. q_sort (Some q) st = Some (Some q', st') \<and>
            rep_inv q' st' \<and> owns q' st'"
    using q_sort_rep [OF r] by (meson queue_rep_valid)
  have sz: "\<exists>ns. q_nodes q st = Some ns \<and> q_size (Some q) = word_of_nat (length ns)"
    using queue_rep_nodes [OF r] cnt by (simp add: q_size_def)
  from ins rem rev srt sz show ?thesis by blast
qed

lemma rep_inv_preserved_example:
  "rep_inv ex_queue ex_mem \<and> owns ex_queue ex_mem \<and>
   length (c_str ''kiwi'') < 2 ^ 31 - 1 \<and>
   (\<exists>b q' st'. q_insert_head (Some ex_queue) ''kiwi'' (Some 7) (Some 8) ex_mem
        = Some (b, Some q', st') \<and> rep_inv q' st' \<and> owns q' st') \<and>
   (\<exists>b q' st'. q_insert_tail (Some ex_queue) ''kiwi'' (Some 7) (Some 8) ex_mem
        = Some (b, Some q', st') \<and> rep_inv q' st' \<and> owns q' st') \<and>
   (\<exists>b q' w st'. q_remove_head (Some ex_queue) True 4 ex_mem = Some (b, Some q', w, st') \<and>
      rep_inv q' st' \<and> owns q' st') \<and>
   (\<exists>q' st'. q_reverse (Some ex_queue) ex_mem = Some (Some q', st') \<and>
      rep_inv q' st' \<and> owns q' st') \<and>
   (\<exists>q' st'. q_sort (Some ex_queue) ex_mem = Some (Some q', st') \<and>
      rep_inv q' st' \<and> owns q' st') \<and>
   q_size (Some ex_queue) = 3"
proof -
  note v = queue_rep_valid [OF ex_queue_rep]
  have b: "length (c_str ''kiwi'') < 2 ^ 31 - 1"
    by (simp add: c_str_def)
  have n: "q_nodes ex_queue ex_mem = Some [0, 1, 2]" using ex_queue_rep by (rule queue_rep_nodes)
  from rep_inv_preserved [OF v [THEN conjunct1] v [THEN conjunct2],
      of "''kiwi''" "Some 7" "Some 8" True 4] v b n
  show ?thesis by simp
qed

lemma c_str_replicate: "c \<noteq> NUL \<Longrightarrow> c_str (replicate n c) = replicate n c"
  unfolding c_str_def by (induction n) simp_all

lemma long_len: "(ucast (strlen long_string) :: c_int) = - 1"
  by (simp add: strlen_def long_string_def c_str_replicate)

lemma insert_head_long: "q_insert_head (Some queue0) long_string (Some 0) (Some 1) mem0 = None"
  unfolding q_insert_head_def
  by (simp add: long_len malloc_ele_def malloc_str_def allocated_def mem0_def set_value_def
        strncpy_def scast_n1 Let_def)

lemma insert_tail_long: "q_insert_tail (Some queue0) long_string (Some 0) (Some 1) mem0 = None"
  unfolding q_insert_tail_def
  by (simp add: long_len malloc_ele_def malloc_str_def allocated_def mem0_def set_value_def
        strncpy_def scast_n1 Let_def)

lemma long_size: "unat (scast ((ucast (strlen long_string) :: c_int) + 1) :: size_t) = 0"
  by (simp add: long_len)

text \<open>
  Claim C3: every public operation, applied to a queue that satisfies the representation
  invariant, yields a queue that still satisfies it. The code breaks this at the
  insertion of a string of \<open>2^32 - 1\<close> bytes into the empty queue, when both calls of
  \<^verbatim>\<open>malloc\<close> return a block: \<^verbatim>\<open>int len = strlen(s)\<close> is -1, \<^verbatim>\<open>malloc(len + 1)\<close> asks for 0
  bytes, and \<^verbatim>\<open>strncpy\<close> then writes past the block. Neither \<^verbatim>\<open>q_insert_head\<close> nor
  \<^verbatim>\<open>q_insert_tail\<close> has a defined result there, so no queue that satisfies the invariant
  is returned.
\<close>

theorem insert_long_string_undefined:
  "rep_inv queue0 mem0 \<and> owns queue0 mem0 \<and> length long_string = 2 ^ 32 - 1 \<and>
   sint (ucast (strlen long_string) :: c_int) = - 1 \<and>
   unat (scast ((ucast (strlen long_string) :: c_int) + 1) :: size_t) = 0 \<and>
   q_insert_head (Some queue0) long_string (Some 0) (Some 1) mem0 = None \<and>
   q_insert_tail (Some queue0) long_string (Some 0) (Some 1) mem0 = None \<and>
   \<not> returns_inv (q_insert_head (Some queue0) long_string (Some 0) (Some 1) mem0) \<and>
   \<not> returns_inv (q_insert_tail (Some queue0) long_string (Some 0) (Some 1) mem0)"
proof -
  note v0 = queue_rep_valid [OF queue0_rep]
  have l: "length long_string = 2 ^ 32 - 1" by (simp add: long_string_def)
  have n: "sint (ucast (strlen long_string) :: c_int) = - 1" by (simp add: long_len)
  from v0 l n long_size insert_head_long insert_tail_long
  show ?thesis by (simp add: returns_inv_def)
qed

subsection \<open>Reversal\<close>

lemma queue_rep_values_relinked:
  assumes "queue_rep q' st' ns'" and "relinked S st st'"
  shows "q_values q' st' = Some (map (key st) ns')"
proof -
  have "str_of st' a = str_of st a" for a using assms(2) by (rule relinked_str_of)
  moreover have "\<And>a. a \<in> set ns' \<Longrightarrow> \<exists>w. str_of st' a = Some w"
    using assms(1) by (auto simp: queue_rep_def)
  ultimately have "map (\<lambda>a. the (str_of st' a)) ns' = map (key st) ns'"
    by (fastforce simp: key_def)
  with queue_rep_values [OF assms(1)] show ?thesis by simp
qed

lemma queue_rep_values_key: "queue_rep q st ns \<Longrightarrow> q_values q st = Some (map (key st) ns)"
  by (rule queue_rep_values_relinked [OF _ relinked_refl])

text \<open>
  Claim C6. On a queue that satisfies the representation invariant and owns its strings,
  \<^verbatim>\<open>q_reverse\<close> returns, leaves the count unchanged, and the nodes and their strings are
  those of before in reverse order; the former head is the tail pointer and the former
  tail is the head. A second \<^verbatim>\<open>q_reverse\<close> gives back the queue structure, the order of the
  nodes and the strings of before. On a null handle it does nothing.
\<close>

theorem reverse_reverses:
  assumes "rep_inv q st" "owns q st"
  shows "(\<exists>q' st'. q_reverse (Some q) st = Some (Some q', st') \<and>
            count_q q' = count_q q \<and>
            q_nodes q' st' = map_option rev (q_nodes q st) \<and>
            q_values q' st' = map_option rev (q_values q st) \<and>
            q_values q' st' \<noteq> None \<and>
            last_element q' = head q \<and> head q' = last_element q \<and>
            (\<exists>st''. q_reverse (Some q') st' = Some (Some q, st'') \<and>
               q_nodes q st'' = q_nodes q st \<and> q_values q st'' = q_values q st)) \<and>
         q_reverse None st = Some (None, st)"
proof -
  from assms obtain ns where r: "queue_rep q st ns" by (auto dest: valid_queue_rep)
  let ?q = "q\<lparr>last_element := head q, head := (if ns = [] then None else Some (last ns))\<rparr>"
  from q_reverse_rep [OF r] obtain st' where
    1: "q_reverse (Some q) st = Some (Some ?q, st')" and r': "queue_rep ?q st' (rev ns)"
    and rl: "relinked (set ns) st st'" by blast
  from r have l: "last_element q = (if ns = [] then None else Some (last ns))"
    and c: "chain st (head q) ns" by (simp_all add: queue_rep_def)
  have h: "head q = (if ns = [] then None else Some (hd ns))" using c by (rule chain_hd)
  let ?q2 = "?q\<lparr>last_element := head ?q,
                 head := (if rev ns = [] then None else Some (last (rev ns)))\<rparr>"
  from q_reverse_rep [OF r'] obtain st'' where
    2: "q_reverse (Some ?q) st' = Some (Some ?q2, st'')" and r'': "queue_rep ?q2 st'' (rev (rev ns))"
    and rl': "relinked (set (rev ns)) st' st''" by blast
  have q2: "?q2 = q" using l h by (simp add: last_rev)
  have rl2: "relinked (set ns) st st''" using rl rl' by (rule relinked_trans) simp_all
  have n: "q_nodes q st = Some ns" using r by (rule queue_rep_nodes)
  have n': "q_nodes ?q st' = Some (rev ns)" using r' by (rule queue_rep_nodes)
  have r2: "queue_rep q st'' ns" using r'' unfolding q2 by simp
  have n'': "q_nodes q st'' = Some ns" using r2 by (rule queue_rep_nodes)
  have v: "q_values q st = Some (map (key st) ns)" using r by (rule queue_rep_values_key)
  have v': "q_values ?q st' = Some (map (key st) (rev ns))"
    using r' rl by (rule queue_rep_values_relinked)
  have v'': "q_values q st'' = Some (map (key st) ns)"
    using r2 rl2 by (rule queue_rep_values_relinked)
  have "q_reverse (Some ?q) st' = Some (Some q, st'')" using 2 by (simp only: q2)
  with 1 n n' n'' v v' v'' l show ?thesis
    by (auto simp: rev_map q_reverse_def)
qed

theorem reverse_reverses_witness:
  "rep_inv ex_queue ex_mem \<and> owns ex_queue ex_mem \<and>
   q_values ex_queue ex_mem = Some [''banana'', ''apple'', ''cherry''] \<and>
   result_values (q_reverse (Some ex_queue) ex_mem) = Some [''cherry'', ''apple'', ''banana''] \<and>
   result_nodes (q_reverse (Some ex_queue) ex_mem) = Some [2, 1, 0]"
proof -
  note v = queue_rep_valid [OF ex_queue_rep]
  have n: "q_nodes ex_queue ex_mem = Some [0, 1, 2]" using ex_queue_rep by (rule queue_rep_nodes)
  from reverse_reverses [OF v [THEN conjunct1] v [THEN conjunct2]]
  have "result_values (q_reverse (Some ex_queue) ex_mem) = Some [''cherry'', ''apple'', ''banana'']"
    and "result_nodes (q_reverse (Some ex_queue) ex_mem) = Some [2, 1, 0]"
    by (auto simp: result_values_def result_nodes_def ex_values n)
  with v ex_values show ?thesis by simp
qed

subsection \<open>First in, first out\<close>

lemma min_buffer: "length w < unat (b :: size_t) \<Longrightarrow> min (length w) (unat (b - 1)) = length w"
proof -
  assume l: "length w < unat b"
  then have "b \<noteq> 0" by auto
  then have "unat (b - 1) = unat b - 1" by (rule unat_minus_one)
  with l show ?thesis by simp
qed

lemma fifo_general:
  assumes r: "queue_rep q st ns"
    and fresh: "\<not> allocated st n1" "\<not> allocated st v1" "\<not> allocated st n2"
      "\<not> allocated st v2" "distinct [n1, v1, n2, v2]"
    and s: "length (c_str s1) < 2 ^ 31 - 1" "length (c_str s2) < 2 ^ 31 - 1"
    and w: "map (key st) ns @ [c_str s1, c_str s2] = w1 # w2 # ws"
    and b: "length w1 < unat b1" "length w2 < unat b2"
  shows "fifo_scenario (Some q) st s1 s2 (Some n1) (Some v1) (Some n2) (Some v2) b1 b2 =
     Some (True, True, True, Some (w1 @ [NUL]), True, Some (w2 @ [NUL]))"
proof -
  from fresh(5) have d: "n1 \<noteq> v1" "n2 \<noteq> v2" "n2 \<noteq> n1" "n2 \<noteq> v1" "v2 \<noteq> n1" "v2 \<noteq> v1"
    by auto
  from q_insert_tail_rep [OF r fresh(1,2) d(1) s(1)] obtain q1 st1 where
    i1: "q_insert_tail (Some q) s1 (Some n1) (Some v1) st = Some (True, Some q1, st1)"
    and r1: "queue_rep q1 st1 (ns @ [n1])" and k1n: "str_of st1 n1 = Some (c_str s1)"
    and f1: "\<forall>a\<in>set ns. str_of st1 a = str_of st a"
    and a1: "\<forall>x. allocated st1 x \<longleftrightarrow> allocated st x \<or> x = n1 \<or> x = v1" by blast
  have fr2: "\<not> allocated st1 n2" "\<not> allocated st1 v2" using a1 fresh(3,4) d by auto
  from q_insert_tail_rep [OF r1 fr2 d(2) s(2)] obtain q2 st2 where
    i2: "q_insert_tail (Some q1) s2 (Some n2) (Some v2) st1 = Some (True, Some q2, st2)"
    and r2: "queue_rep q2 st2 ((ns @ [n1]) @ [n2])" and k2n: "str_of st2 n2 = Some (c_str s2)"
    and f2: "\<forall>a\<in>set (ns @ [n1]). str_of st2 a = str_of st1 a" by blast
  have "\<And>a. a \<in> set ns \<Longrightarrow> key st2 a = key st a" using f1 f2 by (simp add: key_def)
  then have km: "map (key st2) ns = map (key st) ns" by simp
  have kn1: "key st2 n1 = c_str s1" using f2 k1n by (simp add: key_def)
  have kn2: "key st2 n2 = c_str s2" using k2n by (simp add: key_def)
  have ks: "map (key st2) ((ns @ [n1]) @ [n2]) = w1 # w2 # ws"
    using w by (simp add: km kn1 kn2)
  then obtain a1 a2 as where ns2: "(ns @ [n1]) @ [n2] = a1 # a2 # as"
    and ka: "key st2 a1 = w1" "key st2 a2 = w2"
    by (cases "(ns @ [n1]) @ [n2]"; cases "tl ((ns @ [n1]) @ [n2])") auto
  from q_remove_head_rep [OF r2 [unfolded ns2], of True b1] obtain q3 st3 where
    m1: "q_remove_head (Some q2) True b1 st2 = Some (True, Some q3, Some (w1 @ [NUL]), st3)"
    and r3: "queue_rep q3 st3 (a2 # as)" and f3: "\<forall>a\<in>set (a2 # as). str_of st3 a = str_of st2 a"
    unfolding ka by (auto simp: min_buffer [OF b(1)])
  have ka3: "key st3 a2 = w2" using f3 ka(2) by (simp add: key_def)
  from q_remove_head_rep [OF r3, of True b2] obtain q4 st4 where
    m2: "q_remove_head (Some q3) True b2 st3 = Some (True, Some q4, Some (w2 @ [NUL]), st4)"
    unfolding ka3 by (auto simp: min_buffer [OF b(2)])
  show ?thesis by (simp add: fifo_scenario_def i1 i2 m1 m2)
qed

text \<open>
  Claim C7, as amended: on an empty queue. When the queue is empty (it satisfies the
  representation invariant and its head is null), both insertions at the tail succeed
  (the allocator returns four distinct unused blocks), the strings are shorter than
  \<open>2^31 - 1\<close> bytes and the buffers have room for each string and its terminator, then the
  two removals succeed and write the first string, then the second.
\<close>

theorem tail_insert_fifo:
  assumes "rep_inv q st" "owns q st" "head q = None"
    and "\<not> allocated st n1" "\<not> allocated st v1" "\<not> allocated st n2" "\<not> allocated st v2"
      "distinct [n1, v1, n2, v2]"
    and "length (c_str s1) < 2 ^ 31 - 1" "length (c_str s2) < 2 ^ 31 - 1"
    and "length (c_str s1) < unat b1" "length (c_str s2) < unat b2"
  shows "fifo_scenario (Some q) st s1 s2 (Some n1) (Some v1) (Some n2) (Some v2) b1 b2 =
     Some (True, True, True, Some (c_str s1 @ [NUL]), True, Some (c_str s2 @ [NUL]))"
proof -
  from assms(1,2) obtain ns where r: "queue_rep q st ns" by (auto dest: valid_queue_rep)
  with assms(3) have ns: "ns = []" by (simp add: queue_rep_def)
  show ?thesis
    by (rule fifo_general [OF r assms(4-10)]) (simp_all add: ns assms(11,12))
qed

theorem tail_insert_fifo_witness:
  "rep_inv queue0 mem0 \<and> owns queue0 mem0 \<and> head queue0 = None \<and>
   length (c_str ''a'') < unat (16 :: size_t) \<and> length (c_str ''b'') < unat (16 :: size_t) \<and>
   fifo_scenario (Some queue0) mem0 ''a'' ''b'' (Some 0) (Some 1) (Some 2) (Some 3) 16 16 =
     Some (True, True, True, Some (''a'' @ [NUL]), True, Some (''b'' @ [NUL]))"
proof -
  note v = queue_rep_valid [OF queue0_rep]
  have h: "head queue0 = None" by (simp add: queue0_def)
  have a: "\<not> allocated mem0 0" "\<not> allocated mem0 (Suc 0)" "\<not> allocated mem0 2" "\<not> allocated mem0 3"
    by (simp_all add: allocated_def mem0_def)
  have c: "c_str ''a'' = ''a''" "c_str ''b'' = ''b''" by (simp_all add: c_str_def)
  from tail_insert_fifo [OF v [THEN conjunct1] v [THEN conjunct2] h, of 0 1 2 3 "''a''" "''b''" 16 16]
    a v h
  show ?thesis by (simp add: c)
qed

text \<open>
  Claim C7 as stated, for every queue, fails on a queue that is not empty: on the queue
  holding x, after the insertions of a and b, the two removals give x and then a.
\<close>

theorem tail_insert_fifo_counterexample:
  "rep_inv one_queue one_mem \<and> owns one_queue one_mem \<and>
   q_values one_queue one_mem = Some [''x''] \<and>
   fifo_scenario (Some one_queue) one_mem ''a'' ''b'' (Some 2) (Some 3) (Some 4) (Some 5) 16 16 =
     Some (True, True, True, Some (''x'' @ [NUL]), True, Some (''a'' @ [NUL])) \<and>
   ''x'' @ [NUL] \<noteq> ''a'' @ [NUL] \<and> ''a'' @ [NUL] \<noteq> ''b'' @ [NUL]"
proof -
  note v = queue_rep_valid [OF one_queue_rep]
  have k: "key one_mem 0 = ''x''"
    by (simp add: key_def str_of_def load_str_def c_str_def one_mem_def)
  have vals: "q_values one_queue one_mem = Some [''x'']"
    unfolding queue_rep_values_key [OF one_queue_rep] by (simp add: k)
  have a: "\<not> allocated one_mem 2" "\<not> allocated one_mem 3" "\<not> allocated one_mem 4"
    "\<not> allocated one_mem 5"
    by (simp_all add: allocated_def one_mem_def)
  have c: "c_str ''a'' = ''a''" "c_str ''b'' = ''b''" by (simp_all add: c_str_def)
  have "fifo_scenario (Some one_queue) one_mem ''a'' ''b'' (Some 2) (Some 3) (Some 4) (Some 5) 16 16 =
     Some (True, True, True, Some (''x'' @ [NUL]), True, Some (''a'' @ [NUL]))"
    by (rule fifo_general [OF one_queue_rep a, where ws = "[''b'']"]) (simp_all add: c k)
  with v vals show ?thesis by simp
qed

subsection \<open>Sorting\<close>

lemma q_sort_values:
  assumes r: "queue_rep q st ns"
  obtains q' st' where "q_sort (Some q) st = Some (Some q', st')"
    "queue_rep q' st' (msort_nodes (key st) ns)" "relinked (set ns) st st'"
    "q_values q st = Some (map (key st) ns)"
    "q_values q' st' = Some (map (key st) (msort_nodes (key st) ns))"
    "sorted (map (key st) (msort_nodes (key st) ns))"
proof -
  from q_sort_rep [OF r] obtain q' st' where s: "q_sort (Some q) st = Some (Some q', st')"
    and r': "queue_rep q' st' (msort_nodes (key st) ns)" and rl: "relinked (set ns) st st'"
    by blast
  have "sorted (map (key st) (msort_nodes (key st) ns))"
    using msort_nodes_props [where ns = ns and k = "key st"] queue_rep_key_no_NUL [OF r]
    by blast
  with s r' rl queue_rep_values_key [OF r] queue_rep_values_relinked [OF r' rl]
  show ?thesis by (rule that)
qed

lemma sorted_strcmp:
  assumes "sorted vs" and "\<And>v. v \<in> set vs \<Longrightarrow> NUL \<notin> set v"
  shows "sorted_wrt (\<lambda>x y. strcmp x y \<le> 0) vs"
proof -
  from assms(1) have "sorted_wrt (\<le>) vs" by simp
  then show ?thesis
    by (rule sorted_wrt_mono_rel [rotated]) (simp add: strcmp_le assms(2))
qed

lemma ex_keys: "key ex_mem 0 = ''banana''" "key ex_mem (Suc 0) = ''apple''" "key ex_mem 2 = ''cherry''"
  by (simp_all add: key_def str_of_def load_str_def c_str_def ex_mem_def)

lemma ex_msort: "msort_nodes (key ex_mem) [0, Suc 0, 2] = [Suc 0, 0, 2]"
  by (simp add: msort_nodes.simps ex_keys)

text \<open>
  Claim C2. On a non-empty queue that satisfies the representation invariant and owns its
  strings, \<^verbatim>\<open>q_sort\<close> returns; the queue then holds the same nodes, each with the string it
  had, so the multiset of strings is unchanged and no string block has changed; and the
  strings are in ascending order: \<^verbatim>\<open>strcmp\<close> of an earlier and a later string is never
  positive (for every pair, so for every adjacent pair). The queue holding banana, apple,
  cherry is sorted to apple, banana, cherry.
\<close>

theorem sort_ascending_permutation:
  "(rep_inv q st \<and> owns q st \<and> head q \<noteq> None \<longrightarrow>
      (\<exists>q' st' ns ns' vs vs'. q_sort (Some q) st = Some (Some q', st') \<and>
         q_nodes q st = Some ns \<and> q_nodes q' st' = Some ns' \<and> mset ns' = mset ns \<and>
         (\<forall>a\<in>set ns. str_of st' a = str_of st a) \<and> strs st' = strs st \<and>
         q_values q st = Some vs \<and> q_values q' st' = Some vs' \<and> mset vs' = mset vs \<and>
         sorted_wrt (\<lambda>x y. strcmp x y \<le> 0) vs')) \<and>
   q_values ex_queue ex_mem = Some [''banana'', ''apple'', ''cherry''] \<and>
   result_values (q_sort (Some ex_queue) ex_mem) = Some [''apple'', ''banana'', ''cherry'']"
proof -
  have 1: "\<exists>q' st' ns ns' vs vs'. q_sort (Some q) st = Some (Some q', st') \<and>
         q_nodes q st = Some ns \<and> q_nodes q' st' = Some ns' \<and> mset ns' = mset ns \<and>
         (\<forall>a\<in>set ns. str_of st' a = str_of st a) \<and> strs st' = strs st \<and>
         q_values q st = Some vs \<and> q_values q' st' = Some vs' \<and> mset vs' = mset vs \<and>
         sorted_wrt (\<lambda>x y. strcmp x y \<le> 0) vs'"
    if "rep_inv q st" "owns q st"
  proof -
    from that obtain ns where r: "queue_rep q st ns" by (auto dest: valid_queue_rep)
    let ?ms = "msort_nodes (key st) ns"
    from r obtain q' st' where s: "q_sort (Some q) st = Some (Some q', st')"
      and r': "queue_rep q' st' ?ms" and rl: "relinked (set ns) st st'"
      and v: "q_values q st = Some (map (key st) ns)"
      and v': "q_values q' st' = Some (map (key st) ?ms)"
      and so: "sorted (map (key st) ?ms)"
      by (rule q_sort_values)
    have m: "mset ?ms = mset ns" by (rule mset_msort_nodes)
    then have mv: "mset (map (key st) ?ms) = mset (map (key st) ns)" by simp
    have "\<And>w. w \<in> set (map (key st) ?ms) \<Longrightarrow> NUL \<notin> set w"
      using queue_rep_key_no_NUL [OF r] by (auto simp: set_msort_nodes)
    with so have sw: "sorted_wrt (\<lambda>x y. strcmp x y \<le> 0) (map (key st) ?ms)"
      by (rule sorted_strcmp)
    have "\<forall>a\<in>set ns. str_of st' a = str_of st a" using relinked_str_of [OF rl] by simp
    moreover have "strs st' = strs st" using rl by (simp add: relinked_def)
    ultimately show ?thesis
      using s queue_rep_nodes [OF r] queue_rep_nodes [OF r'] m v v' mv sw by blast
  qed
  from ex_queue_rep obtain q' st' where "q_sort (Some ex_queue) ex_mem = Some (Some q', st')"
    "q_values q' st' = Some (map (key ex_mem) (msort_nodes (key ex_mem) [0, 1, 2]))"
    by (rule q_sort_values)
  then have 2: "result_values (q_sort (Some ex_queue) ex_mem) = Some [''apple'', ''banana'', ''cherry'']"
    by (simp add: result_values_def ex_msort ex_keys)
  from 1 2 ex_values show ?thesis by blast
qed

theorem sort_ascending_permutation_witness:
  "rep_inv ex_queue ex_mem \<and> owns ex_queue ex_mem \<and> head ex_queue \<noteq> None \<and>
   (\<exists>q' st' vs'. q_sort (Some ex_queue) ex_mem = Some (Some q', st') \<and>
      q_values q' st' = Some vs' \<and> mset vs' = mset [''banana'', ''apple'', ''cherry''] \<and>
      sorted_wrt (\<lambda>x y. strcmp x y \<le> 0) vs' \<and> strs st' = strs ex_mem)"
proof -
  note v = queue_rep_valid [OF ex_queue_rep]
  have h: "head ex_queue \<noteq> None" by (simp add: ex_queue_def)
  from sort_ascending_permutation [of ex_queue ex_mem, THEN conjunct1] v h ex_values
  show ?thesis by auto
qed

text \<open>
  Claim C9. On a queue that satisfies the representation invariant and owns its strings,
  \<^verbatim>\<open>q_sort\<close> returns, a second \<^verbatim>\<open>q_sort\<close> returns, and the sequence of strings after the
  second is the sequence after the first. On a null handle \<^verbatim>\<open>q_sort\<close> does nothing.
\<close>

theorem sort_idempotent:
  assumes "rep_inv q st" "owns q st"
  shows "(\<exists>q1 st1 q2 st2 vs. q_sort (Some q) st = Some (Some q1, st1) \<and>
            q_sort (Some q1) st1 = Some (Some q2, st2) \<and>
            q_values q1 st1 = Some vs \<and> q_values q2 st2 = Some vs) \<and>
         q_sort None st = Some (None, st)"
proof -
  from assms obtain ns where r: "queue_rep q st ns" by (auto dest: valid_queue_rep)
  let ?k = "key st"
  let ?ms = "msort_nodes ?k ns"
  from r obtain q1 st1 where s1: "q_sort (Some q) st = Some (Some q1, st1)"
    and r1: "queue_rep q1 st1 ?ms" and rl: "relinked (set ns) st st1"
    and v1: "q_values q1 st1 = Some (map ?k ?ms)" and so1: "sorted (map ?k ?ms)"
    by (rule q_sort_values)
  have k1: "key st1 = ?k" using rl by (rule relinked_key)
  let ?ms2 = "msort_nodes ?k ?ms"
  obtain q2 st2 where s2: "q_sort (Some q1) st1 = Some (Some q2, st2)"
    and v2: "q_values q2 st2 = Some (map ?k ?ms2)" and so2: "sorted (map ?k ?ms2)"
    by (rule q_sort_values [OF r1, unfolded k1])
  have "mset (map ?k ?ms2) = mset (map ?k ?ms)" by (simp add: mset_msort_nodes)
  from properties_for_sort [OF this so2] have "sort (map ?k ?ms) = map ?k ?ms2" .
  moreover have "sort (map ?k ?ms) = map ?k ?ms" using so1 by (rule sort_key_id_if_sorted [of "\<lambda>x. x", simplified])
  ultimately have "map ?k ?ms2 = map ?k ?ms" by simp
  with s1 s2 v1 v2 show ?thesis by (auto simp: q_sort_def)
qed

theorem sort_idempotent_witness:
  "rep_inv ex_queue ex_mem \<and> owns ex_queue ex_mem \<and>
   (\<exists>q1 st1 q2 st2. q_sort (Some ex_queue) ex_mem = Some (Some q1, st1) \<and>
      q_sort (Some q1) st1 = Some (Some q2, st2) \<and>
      q_values q1 st1 = Some [''apple'', ''banana'', ''cherry''] \<and>
      q_values q2 st2 = Some [''apple'', ''banana'', ''cherry''])"
proof -
  note v = queue_rep_valid [OF ex_queue_rep]
  from ex_queue_rep obtain q' st' where "q_sort (Some ex_queue) ex_mem = Some (Some q', st')"
    "q_values q' st' = Some (map (key ex_mem) (msort_nodes (key ex_mem) [0, 1, 2]))"
    by (rule q_sort_values)
  then have 1: "q_sort (Some ex_queue) ex_mem = Some (Some q', st')"
    "q_values q' st' = Some [''apple'', ''banana'', ''cherry'']"
    by (simp_all add: ex_msort ex_keys)
  from sort_idempotent [OF v [THEN conjunct1] v [THEN conjunct2]] 1 v
  show ?thesis by auto
qed

subsection \<open>Equal strings\<close>

lemma eq_keys: "key eq_mem 0 = ''x''" "key eq_mem 2 = ''x''"
  by (simp_all add: key_def str_of_def load_str_def c_str_def eq_mem_def)

lemma eq_msort: "msort_nodes (key eq_mem) [0, 2] = [2, 0]"
  by (simp add: msort_nodes.simps eq_keys)

text \<open>
  Claim C1, as amended: the sort reverses the order of equal strings. On a queue that
  satisfies the representation invariant and owns its strings, \<^verbatim>\<open>q_sort\<close> returns, and
  whenever a node A came before a node B with the same string, B comes before A afterwards
  (both keep their strings). In the merge, when the comparison of the two front nodes is
  0, the loop takes the front node of the right chain first: the merged chain starts with
  it, and the front node of the left chain comes later.
\<close>

theorem sort_reverses_equal_strings:
  "(rep_inv q st \<and> owns q st \<longrightarrow>
      (\<exists>q' st' ns ns'. q_sort (Some q) st = Some (Some q', st') \<and>
         q_nodes q st = Some ns \<and> q_nodes q' st' = Some ns' \<and>
         (\<forall>a b. precedes a b ns \<and> str_of st a = str_of st b \<longrightarrow>
            precedes b a ns' \<and> str_of st' a = str_of st a \<and> str_of st' b = str_of st b))) \<and>
   (chain st left (l # ls) \<and> chain st right (r # rs) \<and> set (l # ls) \<inter> set (r # rs) = {} \<and>
    (\<forall>a\<in>set (l # ls) \<union> set (r # rs). str_of st a \<noteq> None) \<and>
    comparator st left right = Some 0 \<longrightarrow>
      (\<exists>st' ms. merge_loop comparator start None left right st = Some (Some r, st') \<and>
         chain st' (Some r) (r # ms) \<and> l \<in> set ms))"
proof -
  have 1: "\<exists>q' st' ns ns'. q_sort (Some q) st = Some (Some q', st') \<and>
         q_nodes q st = Some ns \<and> q_nodes q' st' = Some ns' \<and>
         (\<forall>a b. precedes a b ns \<and> str_of st a = str_of st b \<longrightarrow>
            precedes b a ns' \<and> str_of st' a = str_of st a \<and> str_of st' b = str_of st b)"
    if "rep_inv q st" "owns q st"
  proof -
    from that obtain ns where r: "queue_rep q st ns" by (auto dest: valid_queue_rep)
    let ?ms = "msort_nodes (key st) ns"
    from q_sort_rep [OF r] obtain q' st' where s: "q_sort (Some q) st = Some (Some q', st')"
      and r': "queue_rep q' st' ?ms" and rl: "relinked (set ns) st st'"
      by blast
    have d: "distinct ns" using r chain_distinct by (auto simp: queue_rep_def)
    have "precedes b a ?ms" if p: "precedes a b ns" and e: "str_of st a = str_of st b" for a b
    proof -
      from e have "key st a = key st b" by (simp add: key_def)
      with d queue_rep_key_no_NUL [OF r] p show ?thesis by (rule msort_nodes_precedes)
    qed
    with s queue_rep_nodes [OF r] queue_rep_nodes [OF r'] relinked_str_of [OF rl]
    show ?thesis by auto
  qed
  have 2: "\<exists>st' ms. merge_loop comparator start None left right st = Some (Some r, st') \<and>
         chain st' (Some r) (r # ms) \<and> l \<in> set ms"
    if cl: "chain st left (l # ls)" and cr: "chain st right (r # rs)"
      and d: "set (l # ls) \<inter> set (r # rs) = {}"
      and so: "\<forall>a\<in>set (l # ls) \<union> set (r # rs). str_of st a \<noteq> None"
      and cmp: "comparator st left right = Some 0"
  proof -
    have k: "str_of st a = Some (key st a)" if "a \<in> set (l # ls) \<union> set (r # rs)" for a
    proof -
      from so that obtain w where "str_of st a = Some w" by blast
      then show ?thesis by (simp add: key_def)
    qed
    from merge_loop_init [OF cl cr d k, of start] obtain start' st' where
      m: "merge_loop comparator start None left right st = Some (start', st')"
      and ch: "chain st' start' (merge_nodes (key st) (l # ls) (r # rs))" by blast
    from cl cr have lr: "left = Some l" "right = Some r" by (simp_all add: chain_Cons_nxt)
    have "comparator st (Some l) (Some r) = Some (strcmp (key st l) (key st r))"
      by (rule comparator_str_of) (simp_all add: k)
    with cmp lr have z: "strcmp (key st l) (key st r) = 0" by simp
    then have mn: "merge_nodes (key st) (l # ls) (r # rs) = r # merge_nodes (key st) (l # ls) rs"
      by simp
    from ch have "start' = Some r" unfolding mn by (simp add: chain_Cons_nxt)
    moreover have "l \<in> set (merge_nodes (key st) (l # ls) rs)" by (simp add: set_merge_nodes)
    ultimately show ?thesis using m ch unfolding mn by blast
  qed
  from 1 2 show ?thesis by blast
qed

theorem sort_reverses_equal_strings_witness:
  "rep_inv eq_queue eq_mem \<and> owns eq_queue eq_mem \<and>
   q_nodes eq_queue eq_mem = Some [0, 2] \<and>
   precedes 0 2 [0, 2 :: nat] \<and> str_of eq_mem 0 = str_of eq_mem 2 \<and>
   (\<exists>q' st' ns'. q_sort (Some eq_queue) eq_mem = Some (Some q', st') \<and>
      q_nodes q' st' = Some ns' \<and> precedes 2 0 ns')"
proof -
  note v = queue_rep_valid [OF eq_queue_rep]
  have n: "q_nodes eq_queue eq_mem = Some [0, 2]" using eq_queue_rep by (rule queue_rep_nodes)
  have p: "precedes 0 2 [0, 2 :: nat]" by (simp add: precedes_def)
  have e: "str_of eq_mem 0 = str_of eq_mem 2"
    by (simp add: str_of_def load_str_def eq_mem_def)
  from sort_reverses_equal_strings [of eq_queue eq_mem, THEN conjunct1] v
  obtain q' st' ns ns' where "q_sort (Some eq_queue) eq_mem = Some (Some q', st')"
    "q_nodes eq_queue eq_mem = Some ns" "q_nodes q' st' = Some ns'"
    "\<forall>a b. precedes a b ns \<and> str_of eq_mem a = str_of eq_mem b \<longrightarrow> precedes b a ns'"
    by blast
  with n p e have "\<exists>q' st' ns'. q_sort (Some eq_queue) eq_mem = Some (Some q', st') \<and>
      q_nodes q' st' = Some ns' \<and> precedes 2 0 ns'"
    by auto
  with v n p e show ?thesis by blast
qed

text \<open>
  Claim C1 as stated fails: x is inserted twice at the tail of the empty queue, as node
  0 (A) and then as node 2 (B); A precedes B in the queue, and after the sort B precedes
  A.
\<close>

theorem sort_stable_counterexample:
  "q_insert_tail (Some queue0) ''x'' (Some 0) (Some 1) mem0 = Some (True, Some one_queue, one_mem) \<and>
   q_insert_tail (Some one_queue) ''x'' (Some 2) (Some 3) one_mem = Some (True, Some eq_queue, eq_mem) \<and>
   q_nodes eq_queue eq_mem = Some [0, 2] \<and> q_values eq_queue eq_mem = Some [''x'', ''x''] \<and>
   precedes 0 2 [0, 2 :: nat] \<and>
   result_nodes (q_sort (Some eq_queue) eq_mem) = Some [2, 0] \<and>
   \<not> precedes 0 2 [2, 0 :: nat] \<and> precedes 2 0 [2, 0 :: nat]"
proof -
  have a0: "\<not> allocated mem0 0" "\<not> allocated mem0 (Suc 0)"
    by (simp_all add: allocated_def mem0_def)
  have a1: "\<not> allocated one_mem 2" "\<not> allocated one_mem 3"
    by (simp_all add: allocated_def one_mem_def)
  have s: "length (c_str ''x'') < 2 ^ 31 - 1" by (simp add: c_str_def)
  have 1: "q_insert_tail (Some queue0) ''x'' (Some 0) (Some 1) mem0 = Some (True, Some one_queue, one_mem)"
    using q_insert_tail_success_empty [OF a0 _ s, of queue0]
    by (simp add: queue0_def one_queue_def new_mem_def mem0_def one_mem_def c_str_def)
  have 2: "q_insert_tail (Some one_queue) ''x'' (Some 2) (Some 3) one_mem = Some (True, Some eq_queue, eq_mem)"
    using q_insert_tail_success [OF a1 _ s, of one_queue 0 "\<lparr>e_value = Some 1, e_next = None\<rparr>"]
    by (simp add: one_queue_def eq_queue_def new_mem_def one_mem_def eq_mem_def c_str_def
          fun_eq_iff)
  have n: "q_nodes eq_queue eq_mem = Some [0, 2]" using eq_queue_rep by (rule queue_rep_nodes)
  have vs: "q_values eq_queue eq_mem = Some [''x'', ''x'']"
    unfolding queue_rep_values_key [OF eq_queue_rep] by (simp add: eq_keys)
  from q_sort_rep [OF eq_queue_rep] obtain q' st' where
    "q_sort (Some eq_queue) eq_mem = Some (Some q', st')"
    "queue_rep q' st' (msort_nodes (key eq_mem) [0, 2])" by blast
  then have 3: "result_nodes (q_sort (Some eq_queue) eq_mem) = Some [2, 0]"
    by (simp add: result_nodes_def eq_msort queue_rep_nodes)
  have p: "precedes 0 2 [0, 2 :: nat]" "\<not> precedes 0 2 [2, 0 :: nat]" "precedes 2 0 [2, 0 :: nat]"
    by (simp_all add: precedes_def)
  from 1 2 n vs 3 p show ?thesis by simp
qed


end
